theory Spec2Isabelle
  imports Complex_Main "HOL-Library.AList"
begin

section \<open>Data model (shared/schema.ts)\<close>

text \<open>
  JavaScript numbers are modelled as \<^typ>\<open>real\<close>: the scores are read as exact
  arithmetic, and the one place where the source computes \<open>0 / 0\<close> (a NaN) is a
  branch of its own in \<open>bm25Search\<close>. The cosine similarity is given a second time in
  double precision, for what holds of it with \<open>==\<close>. Strings are \<^typ>\<open>string\<close>, one
  \<^typ>\<open>char\<close> per UTF-16 code unit, restricted to the ASCII range. A JavaScript
  \<open>Map\<close> is an association list in insertion order: \<open>AList.update\<close> is
  \<open>Map.set\<close> (an existing key keeps its place), \<open>map_of\<close> is \<open>Map.get\<close>,
  \<open>AList.delete\<close> is \<open>Map.delete\<close>.

  Several tables of the schema have a column of the same name; the record fields of
  \<open>document\<close> carry the prefix \<open>d_\<close> and those of \<open>retrievedChunk\<close> the prefix
  \<open>r_\<close>, and the chunk's \<open>id\<close> is \<open>chunk_id\<close>.
\<close>

datatype documentType = Article | Analysis | Rules | Performance | News

record document =
  d_id :: string
  title :: string
  d_content :: string
  d_type :: documentType
  d_source :: "string option"
  url :: "string option"
  createdAt :: "int option"

record chunkMetadata =
  documentTitle :: string
  documentType :: documentType
  source :: "string option"
  startPosition :: nat
  endPosition :: nat
  meta_keywords :: "string list"

text \<open>\<open>Omit<Chunk, "id">\<close> is \<open>insertChunk\<close>; a stored \<open>Chunk\<close> extends it by its id.\<close>

record insertChunk =
  documentId :: string
  content :: string
  chunkIndex :: nat
  embedding :: "real list option"
  metadata :: "chunkMetadata option"

record chunk = insertChunk +
  chunk_id :: string

record retrievedChunk =
  r_id :: string
  r_content :: string
  r_documentId :: string
  r_metadata :: "chunkMetadata option"
  vectorScore :: real
  bm25Score :: real
  combinedScore :: real

section \<open>Storage (server/storage.ts)\<close>

typedecl user
typedecl conversation
typedecl message

record memStorage =
  users :: "(string \<times> user) list"
  documents :: "(string \<times> document) list"
  chunks :: "(string \<times> chunk) list"
  conversations :: "(string \<times> conversation) list"
  messages :: "(string \<times> message) list"

definition getDocument :: "string \<Rightarrow> memStorage \<Rightarrow> document option" where
  "getDocument i s = map_of (documents s) i"

definition getChunks :: "memStorage \<Rightarrow> chunk list" where
  "getChunks s = map snd (chunks s)"

definition getChunksByDocumentId :: "string \<Rightarrow> memStorage \<Rightarrow> chunk list" where
  "getChunksByDocumentId i s = filter (\<lambda>c. documentId c = i) (map snd (chunks s))"

text \<open>
  \<open>deleteDocument\<close>: the document is removed, then the loop walks the entries of
  \<open>this.chunks\<close> and deletes, by key, each entry whose chunk belongs to the document.
\<close>

definition deleteDocument :: "string \<Rightarrow> memStorage \<Rightarrow> memStorage" where
  "deleteDocument i s =
     s\<lparr>documents := AList.delete i (documents s),
       chunks := fold (\<lambda>(chunkId, c) m. if documentId c = i then AList.delete chunkId m else m)
                   (chunks s) (chunks s)\<rparr>"

text \<open>The invariant of a \<open>Map\<close>: its keys are pairwise different.\<close>

definition wellFormed :: "memStorage \<Rightarrow> bool" where
  "wellFormed s = distinct (map fst (chunks s))"

subsection \<open>Cosine similarity\<close>

text \<open>
  In exact arithmetic, as the vector search of the retrieval reads it for the bounds of
  the scores; what depends on rounding, overflow and NaN is stated of the reading in
  double precision that follows.
\<close>

fun cosine_loop :: "real list \<Rightarrow> real list \<Rightarrow> real \<times> real \<times> real \<Rightarrow> real \<times> real \<times> real" where
  "cosine_loop (x # xs) (y # ys) (dotProduct, normA, normB) =
     cosine_loop xs ys (dotProduct + x * y, normA + x * x, normB + y * y)"
| "cosine_loop _ _ acc = acc"

definition cosineSimilarity :: "real list \<Rightarrow> real list \<Rightarrow> real" where
  "cosineSimilarity a b =
     (if length a \<noteq> length b \<or> length a = 0 then 0
      else (case cosine_loop a b (0, 0, 0) of (dotProduct, normA, normB) \<Rightarrow>
              let denominator = sqrt normA * sqrt normB
              in if denominator = 0 then 0 else dotProduct / denominator))"

subsection \<open>Cosine similarity in double precision\<close>

text \<open>
  The numbers of JavaScript are IEEE 754 doubles. Whether \<open>similarity(a, b) ==
  similarity(b, a)\<close> holds depends on what overflow makes of the sums and products, so
  \<open>cosineSimilarity\<close> is given here on doubles as well: a finite number, one of the two
  infinities, or NaN. The sign of a zero is not kept (\<open>==\<close> and \<open>===\<close> do not see it, and
  the function divides only by a denominator that it has found not to be zero).

  The result of an operation on finite numbers is its exact result, rounded: to an
  infinity from \<open>2^1024 - 2^970\<close> on, and by the rounding function \<open>rnd\<close> below that.
  \<open>round_to_double\<close> is that function for doubles, rounding to the nearest of the
  numbers with 53 bits (the unit being \<open>2^-1074\<close> for the subnormal ones), ties to the
  even one.
\<close>

datatype double = Num real | PosInf | NegInf | NaN

definition overflow_threshold :: real where
  "overflow_threshold = 2 ^ 1024 - 2 ^ 970"

definition round_half_even :: "real \<Rightarrow> int" where
  "round_half_even q =
     (let f = \<lfloor>q\<rfloor>
      in if q - of_int f < 1 / 2 then f
         else if q - of_int f > 1 / 2 then f + 1
         else if even f then f else f + 1)"

definition round_to_double :: "real \<Rightarrow> real" where
  "round_to_double x =
     (if x = 0 then 0
      else let e = max \<lfloor>log 2 \<bar>x\<bar>\<rfloor> (- 1022);
               ulp = 2 powr (of_int (e - 52))
           in of_int (round_half_even (x / ulp)) * ulp)"

text \<open>\<open>fl rnd x\<close>: the double that stands for the exact result \<open>x\<close>.\<close>

definition fl :: "(real \<Rightarrow> real) \<Rightarrow> real \<Rightarrow> double" where
  "fl rnd x =
     (if x \<ge> overflow_threshold then PosInf
      else if x \<le> - overflow_threshold then NegInf
      else Num (rnd x))"

fun d_mult :: "(real \<Rightarrow> real) \<Rightarrow> double \<Rightarrow> double \<Rightarrow> double" where
  "d_mult rnd NaN y = NaN"
| "d_mult rnd x NaN = NaN"
| "d_mult rnd (Num x) (Num y) = fl rnd (x * y)"
| "d_mult rnd (Num x) PosInf = (if x = 0 then NaN else if x > 0 then PosInf else NegInf)"
| "d_mult rnd (Num x) NegInf = (if x = 0 then NaN else if x > 0 then NegInf else PosInf)"
| "d_mult rnd PosInf (Num y) = (if y = 0 then NaN else if y > 0 then PosInf else NegInf)"
| "d_mult rnd NegInf (Num y) = (if y = 0 then NaN else if y > 0 then NegInf else PosInf)"
| "d_mult rnd PosInf PosInf = PosInf"
| "d_mult rnd PosInf NegInf = NegInf"
| "d_mult rnd NegInf PosInf = NegInf"
| "d_mult rnd NegInf NegInf = PosInf"

fun d_add :: "(real \<Rightarrow> real) \<Rightarrow> double \<Rightarrow> double \<Rightarrow> double" where
  "d_add rnd NaN y = NaN"
| "d_add rnd x NaN = NaN"
| "d_add rnd (Num x) (Num y) = fl rnd (x + y)"
| "d_add rnd (Num x) PosInf = PosInf"
| "d_add rnd (Num x) NegInf = NegInf"
| "d_add rnd PosInf (Num y) = PosInf"
| "d_add rnd NegInf (Num y) = NegInf"
| "d_add rnd PosInf PosInf = PosInf"
| "d_add rnd PosInf NegInf = NaN"
| "d_add rnd NegInf PosInf = NaN"
| "d_add rnd NegInf NegInf = NegInf"

fun d_sqrt :: "(real \<Rightarrow> real) \<Rightarrow> double \<Rightarrow> double" where
  "d_sqrt rnd (Num x) = (if x < 0 then NaN else Num (rnd (sqrt x)))"
| "d_sqrt rnd PosInf = PosInf"
| "d_sqrt rnd NegInf = NaN"
| "d_sqrt rnd NaN = NaN"

fun d_div :: "(real \<Rightarrow> real) \<Rightarrow> double \<Rightarrow> double \<Rightarrow> double" where
  "d_div rnd NaN y = NaN"
| "d_div rnd x NaN = NaN"
| "d_div rnd (Num x) (Num y) =
     (if y = 0 then (if x = 0 then NaN else if x > 0 then PosInf else NegInf)
      else fl rnd (x / y))"
| "d_div rnd (Num x) PosInf = Num 0"
| "d_div rnd (Num x) NegInf = Num 0"
| "d_div rnd PosInf (Num y) = (if y \<ge> 0 then PosInf else NegInf)"
| "d_div rnd NegInf (Num y) = (if y \<ge> 0 then NegInf else PosInf)"
| "d_div rnd PosInf PosInf = NaN"
| "d_div rnd PosInf NegInf = NaN"
| "d_div rnd NegInf PosInf = NaN"
| "d_div rnd NegInf NegInf = NaN"

text \<open>\<open>x == y\<close> on numbers: NaN equals nothing, not even itself.\<close>

fun js_eq :: "double \<Rightarrow> double \<Rightarrow> bool" where
  "js_eq NaN y = False"
| "js_eq x NaN = False"
| "js_eq x y = (x = y)"

fun cosine_loop_double ::
  "(real \<Rightarrow> real) \<Rightarrow> double list \<Rightarrow> double list \<Rightarrow> double \<times> double \<times> double
     \<Rightarrow> double \<times> double \<times> double" where
  "cosine_loop_double rnd (x # xs) (y # ys) (dotProduct, normA, normB) =
     cosine_loop_double rnd xs ys
       (d_add rnd dotProduct (d_mult rnd x y), d_add rnd normA (d_mult rnd x x),
        d_add rnd normB (d_mult rnd y y))"
| "cosine_loop_double rnd _ _ acc = acc"

definition cosineSimilarity_double :: "(real \<Rightarrow> real) \<Rightarrow> double list \<Rightarrow> double list \<Rightarrow> double" where
  "cosineSimilarity_double rnd a b =
     (if length a \<noteq> length b \<or> length a = 0 then Num 0
      else (case cosine_loop_double rnd a b (Num 0, Num 0, Num 0) of
              (dotProduct, normA, normB) \<Rightarrow>
                let denominator = d_mult rnd (d_sqrt rnd normA) (d_sqrt rnd normB)
                in if denominator = Num 0 then Num 0 else d_div rnd dotProduct denominator))"

text \<open>A double whose square overflows.\<close>

definition huge :: double where
  "huge = Num (2 ^ 600)"

text \<open>A double whose square underflows to zero.\<close>

definition tiny :: double where
  "tiny = Num (1 / 2 ^ 600)"

section \<open>Strings of JavaScript\<close>

text \<open>
  The white space of \<open>\s\<close> and of \<open>trim\<close>, in the ASCII range: space, tab, line feed,
  vertical tab, form feed and carriage return.
\<close>

definition is_ws :: "char \<Rightarrow> bool" where
  "is_ws c = (c = CHR '' '' \<or> c = CHR 0x09 \<or> c = CHR 0x0A \<or> c = CHR 0x0B
              \<or> c = CHR 0x0C \<or> c = CHR 0x0D)"

definition lower_char :: "char \<Rightarrow> char" where
  "lower_char c =
     (case map_of (zip ''ABCDEFGHIJKLMNOPQRSTUVWXYZ'' ''abcdefghijklmnopqrstuvwxyz'') c of
        None \<Rightarrow> c | Some l \<Rightarrow> l)"

definition toLowerCase :: "string \<Rightarrow> string" where
  "toLowerCase s = map lower_char s"

definition trim :: "string \<Rightarrow> string" where
  "trim s = rev (dropWhile is_ws (rev (dropWhile is_ws s)))"

text \<open>\<open>s.includes(t)\<close>: \<open>t\<close> occurs in \<open>s\<close> as a substring.\<close>

fun includes_str :: "string \<Rightarrow> string \<Rightarrow> bool" where
  "includes_str [] t = (t = [])"
| "includes_str (c # cs) t = (take (length t) (c # cs) = t \<or> includes_str cs t)"

text \<open>
  \<open>s.split(/\s+/)\<close>: the pieces between the maximal runs of white space; a run at
  the start or at the end leaves an empty piece there. \<open>in_sep\<close> says that the scan is
  inside a run, \<open>cur\<close> is the piece being read, reversed.
\<close>

fun split_ws_from :: "bool \<Rightarrow> string \<Rightarrow> string \<Rightarrow> string list" where
  "split_ws_from in_sep cur [] = [rev cur]"
| "split_ws_from in_sep cur (c # cs) =
     (if is_ws c then
        (if in_sep then split_ws_from True cur cs
         else rev cur # split_ws_from True [] cs)
      else split_ws_from False (c # cur) cs)"

definition split_ws :: "string \<Rightarrow> string list" where
  "split_ws s = split_ws_from False [] s"

text \<open>
  \<open>s.split(/(?<=[.!?])\s+/)\<close>: a separator is a maximal run of white space that
  starts right after one of \<open>. ! ?\<close>; white space elsewhere stays in its piece.
  \<open>after_punct\<close> says that the character just read is one of the three.
\<close>

definition is_sentence_end :: "char \<Rightarrow> bool" where
  "is_sentence_end c = (c = CHR ''.'' \<or> c = CHR ''!'' \<or> c = CHR ''?'')"

fun split_sentences_from :: "bool \<Rightarrow> bool \<Rightarrow> string \<Rightarrow> string \<Rightarrow> string list" where
  "split_sentences_from in_sep after_punct cur [] = [rev cur]"
| "split_sentences_from in_sep after_punct cur (c # cs) =
     (if is_ws c \<and> (in_sep \<or> after_punct) then
        (if in_sep then split_sentences_from True False cur cs
         else rev cur # split_sentences_from True False [] cs)
      else split_sentences_from False (is_sentence_end c) (c # cur) cs)"

definition split_sentences :: "string \<Rightarrow> string list" where
  "split_sentences s = split_sentences_from False False [] s"

text \<open>
  \<open>xs.slice(0, e)\<close> for an integer \<open>e\<close>: a negative end counts from the end of the
  array.
\<close>

definition slice0 :: "int \<Rightarrow> 'a list \<Rightarrow> 'a list" where
  "slice0 e xs = (if e < 0 then take (nat (int (length xs) + e)) xs else take (nat e) xs)"

section \<open>Document processing (server/rag.ts)\<close>

definition CHUNK_SIZE :: nat where "CHUNK_SIZE = 500"
definition CHUNK_OVERLAP :: nat where "CHUNK_OVERLAP = 100"
definition TOP_K :: int where "TOP_K = 5"

text \<open>The two vocabularies of \<open>extractKeywords\<close>.\<close>

definition f1Terms :: "string list" where
  "f1Terms =
     [''pit stop'', ''tire'', ''strategy'', ''DRS'', ''overtake'', ''qualifying'',
      ''pole position'', ''fastest lap'', ''safety car'', ''VSC'', ''red flag'',
      ''undercut'', ''overcut'', ''medium'', ''soft'', ''hard'', ''intermediate'',
      ''wet'', ''slick'', ''degradation'', ''graining'', ''blistering'',
      ''downforce'', ''drag'', ''aero'', ''ERS'', ''battery'', ''deployment'',
      ''sector'', ''lap time'', ''gap'', ''delta'', ''pace'', ''stint'']"

definition entities :: "string list" where
  "entities =
     [''verstappen'', ''hamilton'', ''leclerc'', ''norris'', ''sainz'', ''russell'',
      ''perez'', ''alonso'', ''stroll'', ''gasly'', ''ocon'', ''tsunoda'',
      ''red bull'', ''ferrari'', ''mercedes'', ''mclaren'', ''aston martin'',
      ''alpine'', ''williams'', ''haas'', ''alfa romeo'', ''alphatauri'',
      ''monaco'', ''silverstone'', ''monza'', ''spa'', ''suzuka'', ''interlagos'']"

text \<open>\<open>Set.add\<close> on a set kept in insertion order.\<close>

definition set_add :: "'a \<Rightarrow> 'a list \<Rightarrow> 'a list" where
  "set_add x xs = (if x \<in> set xs then xs else xs @ [x])"

definition extractKeywords :: "string \<Rightarrow> string list" where
  "extractKeywords txt =
     (let add = (\<lambda>term kws. if includes_str (toLowerCase txt) term then set_add term kws else kws);
          kws = fold add entities (fold add f1Terms [])
      in take 10 kws)"

text \<open>\<open>document.source || undefined\<close>: a null or empty source is left out.\<close>

definition source_or_undefined :: "string option \<Rightarrow> string option" where
  "source_or_undefined src = (case src of None \<Rightarrow> None | Some x \<Rightarrow> if x = [] then None else Some x)"

definition make_chunk :: "document \<Rightarrow> string \<Rightarrow> nat \<Rightarrow> nat \<Rightarrow> insertChunk" where
  "make_chunk d currentChunk idx start =
     \<lparr>documentId = d_id d, content = trim currentChunk, chunkIndex = idx, embedding = None,
      metadata = Some \<lparr>documentTitle = title d, documentType = d_type d,
                        source = source_or_undefined (d_source d),
                        startPosition = start, endPosition = start + length currentChunk,
                        meta_keywords = extractKeywords currentChunk\<rparr>\<rparr>"

text \<open>
  The loop of \<open>chunkDocument\<close> over the sentences, with its four variables: the chunks
  pushed so far, \<open>currentChunk\<close>, \<open>chunkIndex\<close> and \<open>startPosition\<close>.
\<close>

fun chunk_loop ::
  "document \<Rightarrow> string list \<Rightarrow> insertChunk list \<Rightarrow> string \<Rightarrow> nat \<Rightarrow> nat
     \<Rightarrow> insertChunk list \<times> string \<times> nat \<times> nat" where
  "chunk_loop d [] cs currentChunk idx start = (cs, currentChunk, idx, start)"
| "chunk_loop d (sentence # rest) cs currentChunk idx start =
     (if length currentChunk + length sentence > CHUNK_SIZE \<and> length currentChunk > 0 then
        (let overlapStart = nat (max 0 (int (length currentChunk) - int CHUNK_OVERLAP))
         in chunk_loop d rest (cs @ [make_chunk d currentChunk idx start])
              (drop overlapStart currentChunk @ sentence) (idx + 1) (start + overlapStart))
      else chunk_loop d rest cs
             (currentChunk @ (if currentChunk \<noteq> [] then '' '' else []) @ sentence) idx start)"

definition chunkDocument :: "document \<Rightarrow> insertChunk list" where
  "chunkDocument d =
     (case chunk_loop d (split_sentences (d_content d)) [] [] 0 0 of
        (cs, currentChunk, idx, start) \<Rightarrow>
          if trim currentChunk \<noteq> [] then cs @ [make_chunk d currentChunk idx start] else cs)"


text \<open>The spans \<open>(startPosition, endPosition)\<close> of the chunks, in their order.\<close>

definition spans :: "insertChunk list \<Rightarrow> (nat \<times> nat) list" where
  "spans cs = concat (map (\<lambda>c. case metadata c of None \<Rightarrow> []
                                 | Some m \<Rightarrow> [(startPosition m, endPosition m)]) cs)"

text \<open>
  For the proofs about the chunker: the characters a list of sentences needs in a
  document (each sentence and one separator), two spans that follow each other without
  a gap, and the invariant of the loop of \<open>chunkDocument\<close>.
\<close>

definition sentence_budget :: "string list \<Rightarrow> nat" where
  "sentence_budget ss = sum_list (map (\<lambda>s. length s + 1) ss)"

definition linked :: "nat \<times> nat \<Rightarrow> nat \<times> nat \<Rightarrow> bool" where
  "linked a b = (fst a \<le> fst b \<and> fst b \<le> snd a)"

definition chunker_inv :: "(nat \<times> nat) list \<Rightarrow> string \<Rightarrow> nat \<Rightarrow> nat \<Rightarrow> bool" where
  "chunker_inv sp cur start budget =
     (successively linked sp
      \<and> (sp \<noteq> [] \<longrightarrow> fst (hd sp) = 0 \<and> fst (last sp) \<le> start \<and> start \<le> snd (last sp))
      \<and> (sp = [] \<longrightarrow> start = 0)
      \<and> (\<forall>i < length sp. snd (sp ! i) + i + 1 \<le> budget)
      \<and> (cur \<noteq> [] \<longrightarrow> start + length cur + length sp + 1 \<le> budget)
      \<and> (cur = [] \<longrightarrow> sp = []))"

text \<open>A document of two sentences of 300 characters each, with one space between them.\<close>

definition long_sentence :: "char \<Rightarrow> string" where
  "long_sentence c = replicate 299 c @ ''.''"

definition two_sentences :: string where
  "two_sentences = long_sentence CHR ''A'' @ '' '' @ long_sentence CHR ''B''"

section \<open>Query enhancement (server/rag.ts)\<close>

text \<open>
  The values \<open>JSON.parse\<close> returns. An object is the list of its properties, each
  name once; a property that is not there reads as \<open>undefined\<close> (\<open>None\<close>).
\<close>

datatype json =
    JNull
  | JBool bool
  | JNum real
  | JStr string
  | JArr "json list"
  | JObj "(string \<times> json) list"

datatype js_error = SyntaxError | TypeError | ProviderError

text \<open>
  What the provider's message holds, seen through \<open>content || "{}"\<close> and
  \<open>JSON.parse\<close>: no content (null or the empty string, so that \<open>"{}"\<close> is parsed), a
  text that \<open>JSON.parse\<close> rejects, or a text that parses to a value. A response is the
  list of its choices.
\<close>

datatype message_content = NoContent | Unparseable | Parsed json

definition JSON_parse :: "message_content \<Rightarrow> js_error + json" where
  "JSON_parse c = (case c of NoContent \<Rightarrow> Inr (JObj []) | Unparseable \<Rightarrow> Inl SyntaxError
                   | Parsed v \<Rightarrow> Inr v)"

text \<open>\<open>v.name\<close>: reading a property of null raises, a primitive or an array has no such property.\<close>

definition get_property :: "json \<Rightarrow> string \<Rightarrow> js_error + json option" where
  "get_property v name =
     (case v of JNull \<Rightarrow> Inl TypeError | JObj props \<Rightarrow> Inr (map_of props name) | _ \<Rightarrow> Inr None)"

fun truthy :: "json option \<Rightarrow> bool" where
  "truthy None = False"
| "truthy (Some JNull) = False"
| "truthy (Some (JBool b)) = b"
| "truthy (Some (JNum n)) = (n \<noteq> 0)"
| "truthy (Some (JStr s)) = (s \<noteq> [])"
| "truthy (Some (JArr xs)) = True"
| "truthy (Some (JObj props)) = True"

text \<open>\<open>a || b || []\<close>\<close>

definition or_else_empty :: "json option \<Rightarrow> json option \<Rightarrow> json" where
  "or_else_empty a b = (if truthy a then the a else if truthy b then the b else JArr [])"

text \<open>
  \<open>[...v.slice(0, 2)]\<close>: an array gives its first two elements, a string its first
  two characters (each a string of its own); any other value has no \<open>slice\<close> method, and
  the call raises.
\<close>

definition spread_slice2 :: "json \<Rightarrow> js_error + json list" where
  "spread_slice2 v =
     (case v of JArr xs \<Rightarrow> Inr (take 2 xs)
      | JStr s \<Rightarrow> Inr (map (\<lambda>c. JStr [c]) (take 2 s))
      | _ \<Rightarrow> Inl TypeError)"

text \<open>The \<open>try\<close> block of \<open>enhanceQuery\<close>; \<open>choices[0]\<close> of an empty list is undefined.\<close>

definition enhanceQuery_try :: "string \<Rightarrow> message_content list \<Rightarrow> js_error + json list" where
  "enhanceQuery_try query choices =
     (case choices of [] \<Rightarrow> Inl TypeError
      | c # _ \<Rightarrow>
         (case JSON_parse c of Inl e \<Rightarrow> Inl e
          | Inr result \<Rightarrow>
             (case get_property result ''variations'' of Inl e \<Rightarrow> Inl e
              | Inr a \<Rightarrow>
                 (case (if truthy a then Inr None else get_property result ''queries'') of
                    Inl e \<Rightarrow> Inl e
                  | Inr b \<Rightarrow>
                     (case spread_slice2 (or_else_empty a b) of Inl e \<Rightarrow> Inl e
                      | Inr vs \<Rightarrow> Inr (JStr query # vs))))))"

text \<open>
  \<open>enhanceQuery\<close>, given the outcome of the provider's call: its failure is not caught
  here; whatever the \<open>try\<close> block raises is answered by the query alone.
\<close>

definition enhanceQuery :: "string \<Rightarrow> js_error + message_content list \<Rightarrow> js_error + json list" where
  "enhanceQuery query response =
     (case response of Inl e \<Rightarrow> Inl e
      | Inr choices \<Rightarrow>
         (case enhanceQuery_try query choices of Inl _ \<Rightarrow> Inr [JStr query] | Inr vs \<Rightarrow> Inr vs))"

section \<open>BM25 keyword search (server/rag.ts)\<close>

text \<open>The parameters \<open>k1\<close> and \<open>b\<close> of BM25.\<close>

definition bm25_k1 :: real where "bm25_k1 = 1.2"
definition bm25_b :: real where "bm25_b = 0.75"

definition queryTerms_of :: "string \<Rightarrow> string list" where
  "queryTerms_of query = filter (\<lambda>t. length t > 2) (split_ws (toLowerCase query))"

definition avgDL_of :: "chunk list \<Rightarrow> real" where
  "avgDL_of cs = real (sum_list (map (\<lambda>c. length (content c)) cs)) / real (length cs)"

definition df_of :: "chunk list \<Rightarrow> string \<Rightarrow> nat" where
  "df_of cs term = length (filter (\<lambda>c. includes_str (toLowerCase (content c)) term) cs)"

definition idf_of :: "chunk list \<Rightarrow> string list \<Rightarrow> (string \<times> real) list" where
  "idf_of cs queryTerms =
     fold (\<lambda>term idf.
             AList.update term
               (ln ((real (length cs) - real (df_of cs term) + 0.5) / (real (df_of cs term) + 0.5) + 1))
               idf)
       queryTerms []"

text \<open>\<open>m.get(k) || 0\<close>\<close>

definition get_or_0 :: "(string \<times> real) list \<Rightarrow> string \<Rightarrow> real" where
  "get_or_0 m k = (case map_of m k of None \<Rightarrow> 0 | Some v \<Rightarrow> v)"

text \<open>
  A score is \<open>None\<close> when it is NaN. The one NaN of the scoring is \<open>dl / avgDL\<close> when
  every chunk is empty (\<open>0 / 0\<close>); it makes the whole score NaN, and \<open>NaN > 0\<close> is false.
\<close>

definition term_score :: "real \<Rightarrow> nat \<Rightarrow> nat \<Rightarrow> real \<Rightarrow> real option" where
  "term_score idfValue tf dl avgDL =
     (if avgDL = 0 then None
      else Some (idfValue * ((real tf * (bm25_k1 + 1))
                         / (real tf + bm25_k1 * (1 - bm25_b + bm25_b * (real dl / avgDL))))))"

definition add_score :: "real option \<Rightarrow> real option \<Rightarrow> real option" where
  "add_score x y = (case (x, y) of (Some u, Some v) \<Rightarrow> Some (u + v) | _ \<Rightarrow> None)"

text \<open>
  The number of matches of \<open>new RegExp(term, "gi")\<close> in the content is asked of
  \<open>regexCount\<close>, the regular expression engine: \<open>None\<close> when the term is not a regular
  expression and the constructor raises a SyntaxError.
\<close>

fun score_loop ::
  "(string \<Rightarrow> string \<Rightarrow> nat option) \<Rightarrow> (string \<times> real) list \<Rightarrow> string \<Rightarrow> real
     \<Rightarrow> string list \<Rightarrow> real option \<Rightarrow> js_error + real option" where
  "score_loop regexCount idf c avgDL [] score = Inr score"
| "score_loop regexCount idf c avgDL (term # terms) score =
     (case regexCount term c of None \<Rightarrow> Inl SyntaxError
      | Some tf \<Rightarrow>
          score_loop regexCount idf c avgDL terms
            (add_score score (term_score (get_or_0 idf term) tf (length c) avgDL)))"

definition is_positive :: "real option \<Rightarrow> bool" where
  "is_positive x = (case x of None \<Rightarrow> False | Some v \<Rightarrow> v > 0)"

fun bm25_loop ::
  "(string \<Rightarrow> string \<Rightarrow> nat option) \<Rightarrow> (string \<times> real) list \<Rightarrow> real \<Rightarrow> string list
     \<Rightarrow> chunk list \<Rightarrow> (string \<times> real) list \<Rightarrow> js_error + (string \<times> real) list" where
  "bm25_loop regexCount idf avgDL queryTerms [] scores = Inr scores"
| "bm25_loop regexCount idf avgDL queryTerms (c # cs) scores =
     (case score_loop regexCount idf (toLowerCase (content c)) avgDL queryTerms (Some 0) of
        Inl e \<Rightarrow> Inl e
      | Inr score \<Rightarrow>
          bm25_loop regexCount idf avgDL queryTerms cs
            (if is_positive score then AList.update (chunk_id c) (the score) scores else scores))"

definition bm25Search ::
  "(string \<Rightarrow> string \<Rightarrow> nat option) \<Rightarrow> string \<Rightarrow> chunk list \<Rightarrow> js_error + (string \<times> real) list" where
  "bm25Search regexCount query cs =
     bm25_loop regexCount (idf_of cs (queryTerms_of query)) (avgDL_of cs) (queryTerms_of query) cs []"

text \<open>
  A regular expression engine for the sample inputs: it counts as \<open>RegExp\<close> with the
  flags \<open>gi\<close> does for a pattern made of literal characters and of \<open>.\<close>, which stands
  for any character but a line terminator. It is asked about such patterns only, and
  answers \<open>None\<close> for every other one.
\<close>

definition plain_pattern :: "string \<Rightarrow> bool" where
  "plain_pattern pat = list_all (\<lambda>c. c \<notin> set (CHR 0x5C # ''^$*+?()[]{}|'')) pat"

fun match_here :: "string \<Rightarrow> string \<Rightarrow> bool" where
  "match_here [] s = True"
| "match_here (p # ps) [] = False"
| "match_here (p # ps) (c # cs) =
     ((if p = CHR ''.'' then c \<noteq> CHR 0x0A \<and> c \<noteq> CHR 0x0D else lower_char p = lower_char c)
      \<and> match_here ps cs)"

fun count_from :: "string \<Rightarrow> nat \<Rightarrow> string \<Rightarrow> nat" where
  "count_from pat skip [] = 0"
| "count_from pat skip (c # cs) =
     (if skip > 0 then count_from pat (skip - 1) cs
      else if match_here pat (c # cs) then 1 + count_from pat (length pat - 1) cs
      else count_from pat 0 cs)"

definition plain_regexCount :: "string \<Rightarrow> string \<Rightarrow> nat option" where
  "plain_regexCount pat s = (if plain_pattern pat \<and> pat \<noteq> [] then Some (count_from pat 0 s) else None)"


section \<open>Hybrid retrieval (server/storage.ts, server/rag.ts)\<close>

definition has_embedding :: "chunk \<Rightarrow> bool" where
  "has_embedding c = (case embedding c of None \<Rightarrow> False | Some e \<Rightarrow> length e > 0)"

text \<open>
  \<open>Array.prototype.sort\<close> is stable; with the comparator \<open>b.combinedScore -
  a.combinedScore\<close> it is the stable sort by descending \<open>combinedScore\<close>.
\<close>

definition sort_by_combinedScore :: "retrievedChunk list \<Rightarrow> retrievedChunk list" where
  "sort_by_combinedScore rs = sort_key (\<lambda>r. - combinedScore r) rs"

definition searchChunksByEmbedding :: "real list \<Rightarrow> int \<Rightarrow> chunk list \<Rightarrow> retrievedChunk list" where
  "searchChunksByEmbedding queryEmbedding topK cs =
     slice0 topK (sort_by_combinedScore
       (map (\<lambda>c. let v = cosineSimilarity queryEmbedding
                              (case embedding c of None \<Rightarrow> [] | Some e \<Rightarrow> e)
                  in \<lparr>r_id = chunk_id c, r_content = content c, r_documentId = documentId c,
                      r_metadata = metadata c, vectorScore = v, bm25Score = 0, combinedScore = v\<rparr>)
          (filter has_embedding cs)))"

text \<open>What the retrieval asks of its collaborators, in the order of the calls.\<close>

datatype call =
    Call_enhanceQuery string
  | Call_generateEmbedding json
  | Call_searchChunksByEmbedding "real list" int
  | Call_bm25Search string

text \<open>
  The collaborators: the chat completion of \<open>enhanceQuery\<close> (its choices, or a failure),
  \<open>generateEmbedding\<close> with its retries (a vector, or a failure), and the regular
  expression engine.
\<close>

record environment =
  env_chat :: "string \<Rightarrow> js_error + message_content list"
  env_embed :: "json \<Rightarrow> js_error + real list"
  env_regex :: "string \<Rightarrow> string \<Rightarrow> nat option"

text \<open>\<open>Promise.all\<close>: the values, or the first failure.\<close>

fun promise_all :: "(js_error + 'a) list \<Rightarrow> js_error + 'a list" where
  "promise_all [] = Inr []"
| "promise_all (x # xs) =
     (case x of Inl e \<Rightarrow> Inl e
      | Inr v \<Rightarrow> (case promise_all xs of Inl e \<Rightarrow> Inl e | Inr vs \<Rightarrow> Inr (v # vs)))"

text \<open>The inner loop of step 3: each result keeps the largest score seen for its chunk.\<close>

definition merge_results :: "retrievedChunk list \<Rightarrow> (string \<times> real) list \<Rightarrow> (string \<times> real) list" where
  "merge_results results vectorScores =
     fold (\<lambda>result vs. AList.update (r_id result)
                          (max (get_or_0 vs (r_id result)) (vectorScore result)) vs)
       results vectorScores"

definition vector_loop :: "real list list \<Rightarrow> int \<Rightarrow> chunk list \<Rightarrow> (string \<times> real) list" where
  "vector_loop queryEmbeddings topK allChunks =
     fold (\<lambda>e vs. merge_results (searchChunksByEmbedding e (topK * 2) allChunks) vs)
       queryEmbeddings []"

text \<open>\<open>Math.max(...m.values(), 0.001)\<close>\<close>

definition max_score :: "(string \<times> real) list \<Rightarrow> real" where
  "max_score m = fold max (map snd m) 0.001"

text \<open>Step 5: the map \<open>combinedScores\<close>, each value the triple (vector, bm25, combined).\<close>

definition combineScores ::
  "(string \<times> real) list \<Rightarrow> (string \<times> real) list \<Rightarrow> chunk list
     \<Rightarrow> (string \<times> real \<times> real \<times> real) list" where
  "combineScores vectorScores bm25Scores allChunks =
     (let maxVectorScore = max_score vectorScores;
          maxBM25Score = max_score bm25Scores;
          useVectorSearch = (vectorScores \<noteq> []);
          vectorWeight = (if useVectorSearch then 0.6 else 0);
          bm25Weight = (if useVectorSearch then 0.4 else 1.0)
      in fold (\<lambda>c m.
                 let v = (if useVectorSearch
                          then get_or_0 vectorScores (chunk_id c) / maxVectorScore else 0);
                     s = get_or_0 bm25Scores (chunk_id c) / maxBM25Score;
                     combined = vectorWeight * v + bm25Weight * s
                 in if combined > 0 then AList.update (chunk_id c) (v, s, combined) m else m)
           allChunks [])"

definition boost_of :: "string \<Rightarrow> chunkMetadata option \<Rightarrow> real" where
  "boost_of query md =
     (case md of None \<Rightarrow> 1.0
      | Some m \<Rightarrow>
          fold (\<lambda>keyword boost. if includes_str (toLowerCase query) keyword then boost + 0.1 else boost)
            (meta_keywords m) 1.0)"

text \<open>Step 7: the reranked results, in the order of the entries of \<open>combinedScores\<close>.\<close>

definition rerank ::
  "string \<Rightarrow> chunk list \<Rightarrow> (string \<times> real \<times> real \<times> real) list \<Rightarrow> retrievedChunk list" where
  "rerank query allChunks combinedScores =
     concat (map (\<lambda>(chunkId, v, s, combined).
                    case find (\<lambda>c. chunk_id c = chunkId) allChunks of
                      None \<Rightarrow> []
                    | Some c \<Rightarrow>
                        [\<lparr>r_id = chunk_id c, r_content = content c, r_documentId = documentId c,
                          r_metadata = metadata c, vectorScore = v, bm25Score = s,
                          combinedScore = min (combined * boost_of query (metadata c)) 1.0\<rparr>])
              combinedScores)"

text \<open>
  \<open>hybridRetrieval\<close> on the chunks \<open>storage.getChunks()\<close> returned: the calls it made
  and its outcome (the ranked list, or the exception that left it). The storage is not
  written during a retrieval, so \<open>searchChunksByEmbedding\<close> reads the same chunks.
\<close>

definition hybridRetrieval ::
  "environment \<Rightarrow> string \<Rightarrow> int \<Rightarrow> chunk list \<Rightarrow> call list \<times> (js_error + retrievedChunk list)" where
  "hybridRetrieval env query topK allChunks =
     (if allChunks = [] then ([], Inr [])
      else
        let queryVariations =
              (case enhanceQuery query (env_chat env query) of
                 Inl _ \<Rightarrow> [JStr query] | Inr vs \<Rightarrow> vs);
            hasEmbeddings = list_ex has_embedding allChunks;
            embeddings = promise_all (map (env_embed env) queryVariations);
            vectorScores =
              (if hasEmbeddings then
                 (case embeddings of Inl _ \<Rightarrow> [] | Inr es \<Rightarrow> vector_loop es topK allChunks)
               else []);
            vectorCalls =
              (if hasEmbeddings then
                 map Call_generateEmbedding queryVariations
                 @ (case embeddings of Inl _ \<Rightarrow> []
                    | Inr es \<Rightarrow> map (\<lambda>e. Call_searchChunksByEmbedding e (topK * 2)) es)
               else []);
            calls = Call_enhanceQuery query # vectorCalls @ [Call_bm25Search query]
        in (calls,
            case bm25Search (env_regex env) query allChunks of
              Inl e \<Rightarrow> Inl e
            | Inr bm25Scores \<Rightarrow>
                Inr (slice0 topK (sort_by_combinedScore
                       (rerank query allChunks (combineScores vectorScores bm25Scores allChunks))))))"


text \<open>
  The candidates of step 7, \<open>rerankedResults\<close>, before they are sorted and cut: what
  \<open>hybridRetrieval\<close> computes up to its last statement.
\<close>

definition rerankedResults ::
  "environment \<Rightarrow> string \<Rightarrow> int \<Rightarrow> chunk list \<Rightarrow> js_error + retrievedChunk list" where
  "rerankedResults env query topK allChunks =
     (let queryVariations =
            (case enhanceQuery query (env_chat env query) of
               Inl _ \<Rightarrow> [JStr query] | Inr vs \<Rightarrow> vs);
          hasEmbeddings = list_ex has_embedding allChunks;
          embeddings = promise_all (map (env_embed env) queryVariations);
          vectorScores =
            (if hasEmbeddings then
               (case embeddings of Inl _ \<Rightarrow> [] | Inr es \<Rightarrow> vector_loop es topK allChunks)
             else [])
      in case bm25Search (env_regex env) query allChunks of
           Inl e \<Rightarrow> Inl e
         | Inr bm25Scores \<Rightarrow>
             Inr (rerank query allChunks (combineScores vectorScores bm25Scores allChunks)))"

subsection \<open>The search route (server/routes.ts, shared/schema.ts)\<close>

text \<open>
  The body of a request to \<open>/api/search\<close>, as far as the schema and the route read it;
  \<open>topK\<close> is an integer when it is present. \<open>searchQuerySchema\<close> is the parser of the
  schema (\<open>None\<close>: the body is refused): a \<open>query\<close> of at least one character, a positive
  integer \<open>topK\<close> with the default 5, and optional \<open>documentTypes\<close>.
\<close>

record searchBody =
  body_query :: "string option"
  body_topK :: "int option"
  body_documentTypes :: "documentType list option"

definition searchQuerySchema ::
  "searchBody \<Rightarrow> (string \<times> int \<times> documentType list option) option" where
  "searchQuerySchema body =
     (case body_query body of
        None \<Rightarrow> None
      | Some query \<Rightarrow>
          if length query < 1 then None
          else (case body_topK body of
                  None \<Rightarrow> Some (query, 5, body_documentTypes body)
                | Some topK \<Rightarrow>
                    if 0 < topK then Some (query, topK, body_documentTypes body) else None))"

text \<open>
  The route \<open>POST /api/search\<close>. It takes \<open>query\<close> and \<open>topK\<close> from the body as they
  are, with the default 5 for an absent \<open>topK\<close>, and does not call the parser; the routes
  \<open>/api/chat\<close>, \<open>/api/documents\<close> and \<open>/api/conversations\<close> parse their bodies with
  their schemas first.
\<close>

datatype response = Status_400 | Status_500 | Status_200 "retrievedChunk list"

definition api_search :: "environment \<Rightarrow> searchBody \<Rightarrow> chunk list \<Rightarrow> response" where
  "api_search env body allChunks =
     (let topK = (case body_topK body of None \<Rightarrow> 5 | Some k \<Rightarrow> k)
      in case body_query body of
           None \<Rightarrow> Status_400
         | Some query \<Rightarrow>
             if query = [] then Status_400
             else (case snd (hybridRetrieval env query topK allChunks) of
                     Inl _ \<Rightarrow> Status_500
                   | Inr results \<Rightarrow> Status_200 results))"


subsection \<open>A sample storage\<close>

definition sample_chunk :: "string \<Rightarrow> string \<Rightarrow> string \<Rightarrow> chunk" where
  "sample_chunk i d txt =
     \<lparr>documentId = d, content = txt, chunkIndex = 0, embedding = None, metadata = None,
      chunk_id = i\<rparr>"

definition sample_document :: "string \<Rightarrow> string \<Rightarrow> document" where
  "sample_document i txt =
     \<lparr>d_id = i, title = ''Monaco'', d_content = txt, d_type = Analysis, d_source = None,
      url = None, createdAt = None\<rparr>"

definition sample_storage :: memStorage where
  "sample_storage =
     \<lparr>users = [],
      documents = [(''d1'', sample_document ''d1'' ''tire strategy''),
                   (''d2'', sample_document ''d2'' ''pit stop'')],
      chunks = [(''c1'', sample_chunk ''c1'' ''d1'' ''tire''),
                (''c2'', sample_chunk ''c2'' ''d2'' ''pit stop''),
                (''c3'', sample_chunk ''c3'' ''d1'' ''strategy'')],
      conversations = [],
      messages = []\<rparr>"

subsection \<open>A sample corpus without embeddings, and collaborators that are out of reach\<close>

definition tire_chunk :: "string \<Rightarrow> string \<Rightarrow> string list \<Rightarrow> chunk" where
  "tire_chunk i txt kws =
     \<lparr>documentId = ''d1'', content = txt, chunkIndex = 0, embedding = None,
      metadata = Some \<lparr>documentTitle = ''Tires'', documentType = Article, source = None,
                        startPosition = 0, endPosition = length txt, meta_keywords = kws\<rparr>,
      chunk_id = i\<rparr>"

text \<open>
  Three chunks of the same length that hold the word \<open>tire\<close> four, three and five times;
  the second one carries the metadata keywords \<open>kws\<close>.
\<close>

definition tire_corpus :: "string list \<Rightarrow> chunk list" where
  "tire_corpus kws =
     [tire_chunk ''a'' ''tire tire tire tire xxxx'' [],
      tire_chunk ''b'' ''tire tire tire xxxx xxxx'' kws,
      tire_chunk ''c'' ''tire tire tire tire tire'' []]"

definition offline :: environment where
  "offline = \<lparr>env_chat = (\<lambda>_. Inl ProviderError), env_embed = (\<lambda>_. Inl ProviderError),
              env_regex = plain_regexCount\<rparr>"

definition tire_result :: "string \<Rightarrow> string \<Rightarrow> string list \<Rightarrow> real \<Rightarrow> real \<Rightarrow> retrievedChunk" where
  "tire_result i txt kws s c =
     \<lparr>r_id = i, r_content = txt, r_documentId = ''d1'',
      r_metadata = Some \<lparr>documentTitle = ''Tires'', documentType = Article, source = None,
                          startPosition = 0, endPosition = length txt, meta_keywords = kws\<rparr>,
      vectorScore = 0, bm25Score = s, combinedScore = c\<rparr>"

text \<open>
  The results for the query \<open>tire\<close>, best first: with the one keyword \<open>tire\<close> on the
  second chunk, and with two keywords, which lift its score to the cap.
\<close>

definition tire_ranked :: "retrievedChunk list" where
  "tire_ranked =
     [tire_result ''c'' ''tire tire tire tire tire'' [] 1 1,
      tire_result ''b'' ''tire tire tire xxxx xxxx'' [''tire''] (31 / 35) (341 / 350),
      tire_result ''a'' ''tire tire tire tire xxxx'' [] (62 / 65) (62 / 65)]"

definition tie_ranked :: "retrievedChunk list" where
  "tie_ranked =
     [tire_result ''b'' ''tire tire tire xxxx xxxx'' [''tire'', ''ire''] (31 / 35) 1,
      tire_result ''c'' ''tire tire tire tire tire'' [] 1 1,
      tire_result ''a'' ''tire tire tire tire xxxx'' [] (62 / 65) (62 / 65)]"

text \<open>A request for the query \<open>tire\<close> with a negative \<open>topK\<close>.\<close>

definition negative_topK :: searchBody where
  "negative_topK =
     \<lparr>body_query = Some ''tire'', body_topK = Some (- 1), body_documentTypes = None\<rparr>"

subsection \<open>A sample corpus with embeddings, and an embedding provider\<close>

text \<open>
  Three chunks with embeddings of two dimensions; every query is embedded as \<open>[1, 0]\<close>,
  and the query \<open>f1\<close> has no term of more than two characters.
\<close>

definition vector_chunk :: "string \<Rightarrow> real list \<Rightarrow> chunk" where
  "vector_chunk i e =
     \<lparr>documentId = ''d1'', content = ''lap'', chunkIndex = 0, embedding = Some e,
      metadata = None, chunk_id = i\<rparr>"

definition vector_corpus :: "chunk list" where
  "vector_corpus = [vector_chunk ''a'' [0, 1], vector_chunk ''b'' [3, 4], vector_chunk ''c'' [1, 0]]"

definition embedder :: environment where
  "embedder = \<lparr>env_chat = (\<lambda>_. Inl ProviderError), env_embed = (\<lambda>_. Inr [1, 0]),
               env_regex = plain_regexCount\<rparr>"

definition vector_result :: "string \<Rightarrow> real \<Rightarrow> real \<Rightarrow> retrievedChunk" where
  "vector_result i v c =
     \<lparr>r_id = i, r_content = ''lap'', r_documentId = ''d1'', r_metadata = None,
      vectorScore = v, bm25Score = 0, combinedScore = c\<rparr>"

definition vector_ranked :: "retrievedChunk list" where
  "vector_ranked = [vector_result ''c'' 1 (3 / 5), vector_result ''b'' (3 / 5) (9 / 25)]"

subsection \<open>The order of two elements of a list\<close>

text \<open>\<open>x\<close> stands before \<open>y\<close> in the list \<open>xs\<close>.\<close>

definition occurs_before :: "'a list \<Rightarrow> 'a \<Rightarrow> 'a \<Rightarrow> bool" where
  "occurs_before xs x y = (\<exists>us vs ws. xs = us @ x # vs @ y # ws)"

section \<open>Properties of the storage\<close>

lemma delete_loop_filter:
  "fold (\<lambda>(chunkId, c) m. if documentId c = i then AList.delete chunkId m else m) es m
     = filter (\<lambda>(k, _). k \<notin> fst ` {e \<in> set es. documentId (snd e) = i}) m"
proof (induction es arbitrary: m)
  case Nil
  then show ?case by simp
next
  case (Cons e es)
  obtain k c where e: "e = (k, c)" by (cases e)
  show ?case
  proof (cases "documentId c = i")
    case True
    have "{x \<in> set (e # es). documentId (snd x) = i}
            = insert e {x \<in> set es. documentId (snd x) = i}"
      using True e by auto
    then show ?thesis
      using True e Cons.IH [of "AList.delete k m"]
      by (auto simp: AList.delete_eq intro!: filter_cong)
  next
    case False
    have "{x \<in> set (e # es). documentId (snd x) = i} = {x \<in> set es. documentId (snd x) = i}"
      using False e by auto
    then show ?thesis
      using False e Cons.IH [of m] by simp
  qed
qed

lemma deleteDocument_chunks:
  assumes "distinct (map fst (chunks s))"
  shows "chunks (deleteDocument i s) = filter (\<lambda>(k, c). documentId c \<noteq> i) (chunks s)"
proof -
  have "(k \<notin> fst ` {e \<in> set (chunks s). documentId (snd e) = i}) = (documentId c \<noteq> i)"
    if "(k, c) \<in> set (chunks s)" for k c
  proof
    assume "k \<notin> fst ` {e \<in> set (chunks s). documentId (snd e) = i}"
    then show "documentId c \<noteq> i" using that by force
  next
    assume ne: "documentId c \<noteq> i"
    show "k \<notin> fst ` {e \<in> set (chunks s). documentId (snd e) = i}"
    proof
      assume "k \<in> fst ` {e \<in> set (chunks s). documentId (snd e) = i}"
      then obtain c' where c': "(k, c') \<in> set (chunks s)" "documentId c' = i" by auto
      from assms that c'(1) have "c' = c" by (meson eq_key_imp_eq_value)
      with c'(2) ne show False by simp
    qed
  qed
  then have "filter (\<lambda>(k, _). k \<notin> fst ` {e \<in> set (chunks s). documentId (snd e) = i}) (chunks s)
               = filter (\<lambda>(k, c). documentId c \<noteq> i) (chunks s)"
    by (intro filter_cong) auto
  then show ?thesis
    by (simp add: deleteDocument_def delete_loop_filter)
qed

text \<open>
  C10. After \<open>deleteDocument i\<close> no chunk of document \<open>i\<close> is left, every document
  with another id is still found as before, and the chunks of the other documents are
  the ones that were there, in the same order (the chunks of each other document and
  the whole list of chunks, and the other three tables).
\<close>

theorem deleteDocument_cascade:
  assumes "wellFormed s"
  shows "getChunksByDocumentId i (deleteDocument i s) = []
       \<and> (\<forall>j. j \<noteq> i \<longrightarrow> getDocument j (deleteDocument i s) = getDocument j s)
       \<and> (\<forall>j. j \<noteq> i \<longrightarrow>
             getChunksByDocumentId j (deleteDocument i s) = getChunksByDocumentId j s)
       \<and> getChunks (deleteDocument i s) = filter (\<lambda>c. documentId c \<noteq> i) (getChunks s)
       \<and> users (deleteDocument i s) = users s
       \<and> conversations (deleteDocument i s) = conversations s
       \<and> messages (deleteDocument i s) = messages s"
proof -
  have ch: "chunks (deleteDocument i s) = filter (\<lambda>(k, c). documentId c \<noteq> i) (chunks s)"
    using assms by (simp add: wellFormed_def deleteDocument_chunks)
  have all: "getChunks (deleteDocument i s) = filter (\<lambda>c. documentId c \<noteq> i) (getChunks s)"
    by (simp add: getChunks_def ch filter_map comp_def case_prod_unfold)
  have own: "getChunksByDocumentId i (deleteDocument i s) = []"
    by (simp add: getChunksByDocumentId_def ch filter_map comp_def case_prod_unfold)
  have others: "getChunksByDocumentId j (deleteDocument i s) = getChunksByDocumentId j s"
    if "j \<noteq> i" for j
    using that
    by (auto simp: getChunksByDocumentId_def ch filter_map comp_def case_prod_unfold
             intro!: filter_cong arg_cong [where f = "map snd"])
  have docs: "getDocument j (deleteDocument i s) = getDocument j s" if "j \<noteq> i" for j
    using that by (simp add: getDocument_def deleteDocument_def AList.delete_conv')
  have rest: "users (deleteDocument i s) = users s
            \<and> conversations (deleteDocument i s) = conversations s
            \<and> messages (deleteDocument i s) = messages s"
    by (simp add: deleteDocument_def)
  from own docs others all rest show ?thesis by blast
qed

theorem deleteDocument_cascade_witness:
  "wellFormed sample_storage
   \<and> getChunksByDocumentId ''d1'' (deleteDocument ''d1'' sample_storage) = []
   \<and> getDocument ''d2'' (deleteDocument ''d1'' sample_storage)
       = Some (sample_document ''d2'' ''pit stop'')
   \<and> getChunksByDocumentId ''d2'' (deleteDocument ''d1'' sample_storage)
       = [sample_chunk ''c2'' ''d2'' ''pit stop'']
   \<and> getChunks (deleteDocument ''d1'' sample_storage) = [sample_chunk ''c2'' ''d2'' ''pit stop'']"
proof -
  have wf: "wellFormed sample_storage"
    by (simp add: wellFormed_def sample_storage_def)
  have ne: "''d2'' \<noteq> ''d1''" by simp
  show ?thesis
    using wf ne deleteDocument_cascade [OF wf, of "''d1''"]
    by (simp add: getChunks_def getChunksByDocumentId_def getDocument_def sample_storage_def
        sample_chunk_def)
qed

section \<open>Properties of the cosine similarity\<close>

lemma d_mult_commute: "d_mult rnd x y = d_mult rnd y x"
  by (cases x; cases y) (simp_all add: mult.commute)

lemma cosine_loop_double_swap:
  "cosine_loop_double rnd a b (d, p, q) = (d', p', q')
     \<Longrightarrow> cosine_loop_double rnd b a (d, q, p) = (d', q', p')"
proof (induction a arbitrary: b d p q)
  case Nil
  then show ?case by (cases b) auto
next
  case (Cons x xs)
  show ?case
  proof (cases b)
    case Nil
    with Cons.prems show ?thesis by simp
  next
    case (Cons y ys)
    with Cons.prems Cons.IH [of ys] show ?thesis
      by (simp add: d_mult_commute [of rnd y x])
  qed
qed

lemma js_eq_refl: "x \<noteq> NaN \<Longrightarrow> js_eq x x"
  by (cases x) simp_all

lemma square_overflows: "overflow_threshold \<le> 2 ^ 600 * 2 ^ 600"
proof -
  have "overflow_threshold \<le> (2 :: real) ^ 1024" by (simp add: overflow_threshold_def)
  also have "\<dots> \<le> 2 ^ 1200" by (rule power_increasing) simp_all
  also have "\<dots> = (2 :: real) ^ 600 * 2 ^ 600" by (simp add: power_add [symmetric])
  finally show ?thesis .
qed

lemma overflow_nan: "cosineSimilarity_double rnd [huge] [huge] = NaN"
  using square_overflows by (simp add: cosineSimilarity_double_def fl_def Let_def huge_def)

lemma round_to_double_eq:
  "x \<noteq> 0 \<Longrightarrow> max \<lfloor>log 2 \<bar>x\<bar>\<rfloor> (- 1022) = e \<Longrightarrow> 2 powr (of_int (e - 52)) = u
     \<Longrightarrow> round_half_even (x / u) = n \<Longrightarrow> round_to_double x = of_int n * u"
  by (simp add: round_to_double_def Let_def)

lemma round_half_even_of_int: "round_half_even (of_int k) = k"
  unfolding round_half_even_def Let_def by (simp only: floor_of_int) simp

lemma round_one: "round_to_double 1 = 1"
proof -
  have x: "(1 :: real) \<noteq> 0" by simp
  have e: "max \<lfloor>log 2 \<bar>1 :: real\<bar>\<rfloor> (- 1022) = 0" by simp
  have u: "2 powr (of_int (0 - 52)) = (1 / 2 ^ 52 :: real)"
    by (simp add: powr_minus_divide)
  have "(1 :: real) / (1 / 2 ^ 52) = of_int (2 ^ 52)" by simp
  then have n: "round_half_even ((1 :: real) / (1 / 2 ^ 52)) = 2 ^ 52"
    by (simp only: round_half_even_of_int)
  have "round_to_double 1 = of_int (2 ^ 52) * (1 / 2 ^ 52)"
    using x e u n by (rule round_to_double_eq)
  then show ?thesis by simp
qed

lemma one_in_range: "(1 :: real) < overflow_threshold" "- overflow_threshold < (1 :: real)"
proof -
  have "(2 :: real) ^ 970 * 2 \<le> 2 ^ 970 * 2 ^ 54" by (intro mult_left_mono) simp_all
  also have "\<dots> = (2 :: real) ^ 1024" by (simp add: power_add [symmetric])
  finally have "(2 :: real) ^ 970 \<le> 2 ^ 1024 - 2 ^ 970" by simp
  moreover have "(1 :: real) < 2 ^ 970" by (rule one_less_power) simp_all
  ultimately show "(1 :: real) < overflow_threshold" by (simp add: overflow_threshold_def)
  then show "- overflow_threshold < (1 :: real)" by simp
qed

lemma round_zero: "round_to_double 0 = 0"
  by (simp add: round_to_double_def)

lemma sample_similarity:
  "cosineSimilarity_double round_to_double [Num 1] [Num 1] = Num 1"
  "cosineSimilarity_double round_to_double [Num 1, Num 0] [Num 0, Num 1] = Num 0"
  using one_in_range
  by (simp_all add: cosineSimilarity_double_def fl_def Let_def round_one round_zero
      overflow_threshold_def)

text \<open>
  Underflow: the squares of \<open>2^-600\<close> round to zero, the denominator is zero and the
  similarity of the vector with itself is 0.
\<close>

lemma round_half_even_small: "0 \<le> q \<Longrightarrow> q < 1 / 2 \<Longrightarrow> round_half_even q = 0"
proof -
  assume q: "0 \<le> q" "q < 1 / 2"
  then have "\<lfloor>q\<rfloor> = 0" by (simp add: floor_eq_iff)
  with q show ?thesis by (simp add: round_half_even_def Let_def)
qed

lemma square_underflows: "round_to_double (1 / 2 ^ 600 * (1 / 2 ^ 600)) = 0"
proof -
  define x :: real where "x = 1 / 2 ^ 600 * (1 / 2 ^ 600)"
  have xp: "x = 2 powr (- 1200)"
    unfolding x_def by (simp add: powr_minus_divide power_add [symmetric] del: power_numeral)
  have x0: "x \<noteq> 0" "0 < x" unfolding xp by simp_all
  have "log 2 \<bar>x\<bar> = - 1200" unfolding xp by simp
  then have e: "max \<lfloor>log 2 \<bar>x\<bar>\<rfloor> (- 1022) = - 1022" by simp
  define u :: real where "u = 2 powr (of_int (- 1022 - 52))"
  have up: "u = 2 powr (- 1074)" unfolding u_def by simp
  have "x / u = 2 powr (- 1200 - (- 1074))" unfolding xp up by (simp only: powr_diff)
  also have "\<dots> = 2 powr (- 126)" by simp
  finally have q: "x / u = 2 powr (- 126)" .
  have "(2 :: real) powr (- 126) \<le> 2 powr (- 2)" by (rule powr_mono) simp_all
  also have "\<dots> < 1 / 2" by (simp add: powr_minus_divide)
  finally have "x / u < 1 / 2" unfolding q .
  moreover have "0 \<le> x / u" unfolding q by simp
  ultimately have n: "round_half_even (x / u) = 0" by (rule round_half_even_small [rotated])
  have "round_to_double x = of_int 0 * u"
    using x0(1) e u_def [symmetric] n by (rule round_to_double_eq)
  then show ?thesis unfolding x_def by simp
qed

lemma underflow_zero: "cosineSimilarity_double round_to_double [tiny] [tiny] = Num 0"
proof -
  have lt: "(1 :: real) / 2 ^ 600 * (1 / 2 ^ 600) < overflow_threshold"
  proof -
    have "(1 :: real) / 2 ^ 600 * (1 / 2 ^ 600) \<le> 1"
      by (simp add: power_add [symmetric] del: power_numeral) 
    also note one_in_range(1)
    finally show ?thesis .
  qed
  have gt: "- overflow_threshold < (1 :: real) / 2 ^ 600 * (1 / 2 ^ 600)"
  proof -
    have "- overflow_threshold < 0" using one_in_range(1) by simp
    also have "(0 :: real) \<le> 1 / 2 ^ 600 * (1 / 2 ^ 600)" by simp
    finally show ?thesis .
  qed
  have z: "(0 :: real) < overflow_threshold" using one_in_range(1) by simp
  from lt have n1: "\<not> overflow_threshold \<le> 1 / 2 ^ 600 * (1 / 2 ^ 600)"
    by (simp only: not_le)
  from gt have n2: "\<not> 1 / 2 ^ 600 * (1 / 2 ^ 600) \<le> - overflow_threshold"
    by (simp only: not_le)
  have "d_mult round_to_double tiny tiny = fl round_to_double (1 / 2 ^ 600 * (1 / 2 ^ 600))"
    unfolding tiny_def by (simp only: d_mult.simps)
  also have "\<dots> = Num (round_to_double (1 / 2 ^ 600 * (1 / 2 ^ 600)))"
    by (simp only: fl_def n1 n2 if_False)
  also have "\<dots> = Num 0" by (simp only: square_underflows)
  finally have m: "d_mult round_to_double tiny tiny = Num 0" .
  have a: "d_add round_to_double (Num 0) (Num 0) = Num 0"
    using z by (simp add: fl_def round_zero)
  have "cosine_loop_double round_to_double [tiny] [tiny] (Num 0, Num 0, Num 0)
          = (Num 0, Num 0, Num 0)"
    by (simp only: cosine_loop_double.simps m a)
  with z show ?thesis
    by (simp add: cosineSimilarity_double_def Let_def round_zero fl_def)
qed

text \<open>
  C7, as the code has it. In double precision \<open>cosineSimilarity a b\<close> is a total
  function (no branch of it raises); it is exactly 0 when the two lengths differ or when
  either vector is empty; \<open>cosineSimilarity a b\<close> and \<open>cosineSimilarity b a\<close> are the same
  value, and they are equal for \<open>==\<close> whenever that value is not NaN. This holds for
  every rounding function.
\<close>

theorem cosineSimilarity_zero_same_value:
  "(length a \<noteq> length b \<or> a = [] \<or> b = [] \<longrightarrow> cosineSimilarity_double rnd a b = Num 0)
   \<and> cosineSimilarity_double rnd a b = cosineSimilarity_double rnd b a
   \<and> (cosineSimilarity_double rnd a b \<noteq> NaN \<longrightarrow>
        js_eq (cosineSimilarity_double rnd a b) (cosineSimilarity_double rnd b a))"
proof -
  have z: "length a \<noteq> length b \<or> a = [] \<or> b = [] \<longrightarrow> cosineSimilarity_double rnd a b = Num 0"
    by (auto simp: cosineSimilarity_double_def)
  obtain d p q where l: "cosine_loop_double rnd a b (Num 0, Num 0, Num 0) = (d, p, q)"
    by (cases "cosine_loop_double rnd a b (Num 0, Num 0, Num 0)")
  then have r: "cosine_loop_double rnd b a (Num 0, Num 0, Num 0) = (d, q, p)"
    by (rule cosine_loop_double_swap)
  have s: "cosineSimilarity_double rnd a b = cosineSimilarity_double rnd b a"
    by (auto simp: cosineSimilarity_double_def l r Let_def d_mult_commute [of rnd "d_sqrt rnd p"])
  from z s js_eq_refl show ?thesis by simp
qed

theorem cosineSimilarity_zero_same_value_witness:
  "length [Num 1, Num 2] \<noteq> length [Num 3]
   \<and> cosineSimilarity_double round_to_double [Num 1, Num 2] [Num 3] = Num 0
   \<and> cosineSimilarity_double round_to_double [Num 1, Num 0] [Num 0, Num 1] = Num 0
   \<and> cosineSimilarity_double round_to_double [Num 1, Num 0] [Num 0, Num 1] \<noteq> NaN
   \<and> js_eq (cosineSimilarity_double round_to_double [Num 1, Num 0] [Num 0, Num 1])
           (cosineSimilarity_double round_to_double [Num 0, Num 1] [Num 1, Num 0])"
proof -
  have l: "length [Num 1, Num 2] \<noteq> length [Num 3]" by simp
  have n: "cosineSimilarity_double round_to_double [Num 1, Num 0] [Num 0, Num 1] \<noteq> NaN"
    by (simp add: sample_similarity)
  from cosineSimilarity_zero_same_value [of "[Num 1, Num 2]" "[Num 3]" round_to_double] l
  have z: "cosineSimilarity_double round_to_double [Num 1, Num 2] [Num 3] = Num 0"
    by blast
  from cosineSimilarity_zero_same_value [of "[Num 1, Num 0]" "[Num 0, Num 1]" round_to_double] n
  have e: "js_eq (cosineSimilarity_double round_to_double [Num 1, Num 0] [Num 0, Num 1])
             (cosineSimilarity_double round_to_double [Num 0, Num 1] [Num 1, Num 0])"
    by blast
  from l z n e sample_similarity(2) show ?thesis by (intro conjI)
qed

text \<open>
  C7 as stated fails: for the vector \<open>[2^600]\<close> the products overflow, the quotient of
  the two infinities is NaN, and NaN is not equal to itself, so that
  \<open>similarity(a, a) == similarity(a, a)\<close> is false.
\<close>

theorem cosineSimilarity_overflow_counterexample:
  "cosineSimilarity_double round_to_double [huge] [huge] = NaN
   \<and> \<not> js_eq (cosineSimilarity_double round_to_double [huge] [huge])
             (cosineSimilarity_double round_to_double [huge] [huge])"
  by (simp add: overflow_nan)

section \<open>Invariants of the retrieval\<close>

lemma set_update_cases:
  "e \<in> set (AList.update k v al) \<Longrightarrow> e = (k, v) \<or> e \<in> set al"
  by (induction al) (auto split: if_splits)

lemma slice0_subset: "set (slice0 e xs) \<subseteq> set xs"
  by (auto simp: slice0_def dest: in_set_takeD)

lemma set_sort_by_combinedScore [simp]: "set (sort_by_combinedScore rs) = set rs"
  by (simp add: sort_by_combinedScore_def)

lemma max_score_ge_floor: "0.001 \<le> max_score m"
proof -
  have "a \<le> fold max xs a" for xs :: "real list" and a
    by (induction xs arbitrary: a) (auto intro: order_trans [OF max.cobounded2])
  then show ?thesis by (simp add: max_score_def)
qed

lemma fold_max_ge: "x \<in> set xs \<Longrightarrow> x \<le> fold max xs (a :: real)"
proof (induction xs arbitrary: a)
  case Nil
  then show ?case by simp
next
  case (Cons y ys)
  have mono: "c \<le> fold max zs c" for zs :: "real list" and c
    by (induction zs arbitrary: c) (auto intro: order_trans [OF max.cobounded2])
  show ?case
  proof (cases "x = y")
    case True
    have "x \<le> max y a" using True by simp
    also have "\<dots> \<le> fold max ys (max y a)" by (rule mono)
    finally show ?thesis by simp
  next
    case False
    with Cons.prems have "x \<in> set ys" by simp
    then show ?thesis using Cons.IH by simp
  qed
qed

lemma max_score_ge: "(k, v) \<in> set m \<Longrightarrow> v \<le> max_score m"
  unfolding max_score_def by (rule fold_max_ge) force

lemma get_or_0_cases: "get_or_0 m k = 0 \<or> (k, get_or_0 m k) \<in> set m"
  by (auto simp: get_or_0_def split: option.splits dest: map_of_SomeD)

text \<open>A score divided by the maximum of its map lies in [0, 1] when no score is negative.\<close>

lemma normalized_bounds:
  assumes "\<forall>e \<in> set m. 0 \<le> snd e"
  shows "0 \<le> get_or_0 m k / max_score m \<and> get_or_0 m k / max_score m \<le> 1"
proof -
  have pos: "0 < max_score m" using max_score_ge_floor [of m] by simp
  have lo: "0 \<le> get_or_0 m k" using get_or_0_cases [of m k] assms by force
  have hi: "get_or_0 m k \<le> max_score m"
    using get_or_0_cases [of m k] max_score_ge [of k "get_or_0 m k" m] pos by auto
  from pos lo hi show ?thesis by simp
qed

lemma score_positive_maps:
  "bm25_loop rx idf avgDL qts cs m = Inr m' \<Longrightarrow> \<forall>e \<in> set m. 0 < snd e
     \<Longrightarrow> \<forall>e \<in> set m'. 0 < snd e"
proof (induction cs arbitrary: m)
  case Nil
  then show ?case by simp
next
  case (Cons c cs)
  from Cons.prems(1) obtain score where
    sc: "score_loop rx idf (toLowerCase (content c)) avgDL qts (Some 0) = Inr score"
    and rest: "bm25_loop rx idf avgDL qts cs
                 (if is_positive score then AList.update (chunk_id c) (the score) m else m) = Inr m'"
    by (auto split: sum.splits)
  have "\<forall>e \<in> set (if is_positive score then AList.update (chunk_id c) (the score) m else m).
          0 < snd e"
    using Cons.prems(2)
    by (auto simp: is_positive_def split: option.splits dest!: set_update_cases)
  with Cons.IH rest show ?case by blast
qed

lemma bm25Search_positive:
  "bm25Search rx query cs = Inr m \<Longrightarrow> \<forall>e \<in> set m. 0 < snd e"
  unfolding bm25Search_def by (erule score_positive_maps) simp

lemma merge_results_nonneg:
  "\<forall>e \<in> set vs. 0 \<le> snd e \<Longrightarrow> \<forall>e \<in> set (merge_results rs vs). 0 \<le> snd e"
  unfolding merge_results_def
proof (induction rs arbitrary: vs)
  case Nil
  then show ?case by simp
next
  case (Cons r rs)
  have lo: "0 \<le> get_or_0 vs (r_id r)"
    using get_or_0_cases [of vs "r_id r"] Cons.prems by force
  have "\<forall>e \<in> set (AList.update (r_id r) (max (get_or_0 vs (r_id r)) (vectorScore r)) vs).
          0 \<le> snd e"
    using Cons.prems lo by (auto dest!: set_update_cases)
  then show ?case using Cons.IH by simp
qed

lemma vector_loop_nonneg: "\<forall>e \<in> set (vector_loop es topK cs). 0 \<le> snd e"
proof -
  have "\<forall>e \<in> set vs. 0 \<le> snd e \<Longrightarrow>
        \<forall>e \<in> set (fold (\<lambda>e vs. merge_results (searchChunksByEmbedding e (topK * 2) cs) vs) es vs).
          0 \<le> snd e" for vs
  proof (induction es arbitrary: vs)
    case Nil
    then show ?case by simp
  next
    case (Cons e es)
    have "\<forall>x \<in> set (merge_results (searchChunksByEmbedding e (topK * 2) cs) vs). 0 \<le> snd x"
      using Cons.prems by (rule merge_results_nonneg)
    from Cons.IH [OF this] show ?case by simp
  qed
  from this [of "[]"] show ?thesis by (simp add: vector_loop_def)
qed

lemma combineScores_entry:
  assumes "(k, v, s, c) \<in> set (combineScores vs bs cs)"
  shows "v = (if vs \<noteq> [] then get_or_0 vs k / max_score vs else 0)
       \<and> s = get_or_0 bs k / max_score bs
       \<and> c = (if vs \<noteq> [] then 0.6 else 0) * v + (if vs \<noteq> [] then 0.4 else 1) * s
       \<and> 0 < c \<and> k \<in> chunk_id ` set cs"
proof -
  define vOf where "vOf = (\<lambda>k. if vs \<noteq> [] then get_or_0 vs k / max_score vs else 0)"
  define sOf where "sOf = (\<lambda>k. get_or_0 bs k / max_score bs)"
  define cOf where
    "cOf = (\<lambda>k. (if vs \<noteq> [] then 0.6 else 0) * vOf k + (if vs \<noteq> [] then 0.4 else 1.0) * sOf k)"
  define step where "step = (\<lambda>(c :: chunk) (m :: (string \<times> real \<times> real \<times> real) list).
      if cOf (chunk_id c) > 0
      then AList.update (chunk_id c) (vOf (chunk_id c), sOf (chunk_id c), cOf (chunk_id c)) m
      else m)"
  define good where "good = (\<lambda>(xs :: chunk list) (e :: string \<times> real \<times> real \<times> real).
      snd e = (vOf (fst e), sOf (fst e), cOf (fst e)) \<and> 0 < cOf (fst e)
      \<and> fst e \<in> chunk_id ` set xs)"
  have inv: "\<forall>e \<in> set m. good (pre @ xs) e \<Longrightarrow> \<forall>e \<in> set (fold step xs m). good (pre @ xs) e"
    for xs pre m
  proof (induction xs arbitrary: m pre)
    case Nil
    then show ?case by simp
  next
    case (Cons x xs)
    have "\<forall>e \<in> set (step x m). good (pre @ x # xs) e"
    proof (cases "cOf (chunk_id x) > 0")
      case True
      have "good (pre @ x # xs) (chunk_id x, vOf (chunk_id x), sOf (chunk_id x), cOf (chunk_id x))"
        using True by (simp add: good_def)
      then show ?thesis
        using True Cons.prems by (auto simp: step_def dest!: set_update_cases)
    next
      case False
      then show ?thesis using Cons.prems by (simp add: step_def)
    qed
    then have "\<forall>e \<in> set (step x m). good ((pre @ [x]) @ xs) e" by simp
    from Cons.IH [OF this] show ?case by simp
  qed
  have "combineScores vs bs cs = fold step cs []"
    by (simp only: combineScores_def step_def Let_def vOf_def sOf_def cOf_def)
  with inv [of "[]" "[]" cs] assms have "good cs (k, v, s, c)" by auto
  then have "v = vOf k" "s = sOf k" "c = cOf k" "0 < cOf k" "k \<in> chunk_id ` set cs"
    by (simp_all add: good_def)
  then show ?thesis
    by (simp add: vOf_def sOf_def cOf_def)
qed

lemma find_Some_set: "find P xs = Some x \<Longrightarrow> P x \<and> x \<in> set xs"
  by (induction xs) (auto split: if_splits)

lemma boost_of_ge_1: "1 \<le> boost_of query md"
proof -
  have "a \<le> fold (\<lambda>keyword boost. if includes_str q keyword then boost + 0.1 else boost) ks a"
    for ks q and a :: real
  proof (induction ks arbitrary: a)
    case Nil
    then show ?case by simp
  next
    case (Cons k ks)
    show ?case
    proof (cases "includes_str q k")
      case True
      have "a \<le> a + 0.1" by simp
      also have "\<dots> \<le> fold (\<lambda>keyword boost. if includes_str q keyword then boost + 0.1 else boost)
                         ks (a + 0.1)"
        by (rule Cons.IH)
      finally show ?thesis using True by simp
    next
      case False
      then show ?thesis using Cons.IH [of a] by simp
    qed
  qed
  then show ?thesis by (auto simp: boost_of_def split: option.splits)
qed

lemma rerank_entry:
  assumes "r \<in> set (rerank query cs comb)"
  shows "\<exists>v s c. (r_id r, v, s, c) \<in> set comb \<and> vectorScore r = v \<and> bm25Score r = s
           \<and> combinedScore r = min (c * boost_of query (r_metadata r)) 1
           \<and> (\<exists>ch \<in> set cs. chunk_id ch = r_id r \<and> r_metadata r = metadata ch
                \<and> r_content r = content ch \<and> r_documentId r = documentId ch)"
proof -
  define F where "F = (\<lambda>e :: string \<times> real \<times> real \<times> real.
      case e of (chunkId, v, s, combined) \<Rightarrow>
        (case find (\<lambda>c. chunk_id c = chunkId) cs of
           None \<Rightarrow> []
         | Some c \<Rightarrow>
             [\<lparr>r_id = chunk_id c, r_content = content c, r_documentId = documentId c,
               r_metadata = metadata c, vectorScore = v, bm25Score = s,
               combinedScore = min (combined * boost_of query (metadata c)) 1.0\<rparr>]))"
  have "rerank query cs comb = concat (map F comb)"
    by (simp only: rerank_def F_def)
  with assms have "r \<in> (\<Union>e \<in> set comb. set (F e))"
    by (simp only: set_concat set_map image_image)
  then obtain e where e: "e \<in> set comb" and re: "r \<in> set (F e)"
    by blast
  obtain k v s c where ek: "e = (k, v, s, c)" by (cases e) auto
  from re ek obtain ch where f: "find (\<lambda>x. chunk_id x = k) cs = Some ch"
    and r: "r = \<lparr>r_id = chunk_id ch, r_content = content ch, r_documentId = documentId ch,
                 r_metadata = metadata ch, vectorScore = v, bm25Score = s,
                 combinedScore = min (c * boost_of query (metadata ch)) 1.0\<rparr>"
    by (cases "find (\<lambda>x. chunk_id x = k) cs") (simp_all add: F_def)
  from find_Some_set [OF f] have "chunk_id ch = k" "ch \<in> set cs" by simp_all
  with e ek r show ?thesis by auto
qed

lemma hybridRetrieval_results:
  assumes "snd (hybridRetrieval env query topK cs) = Inr rs"
  shows "\<exists>vs bs. (\<forall>e \<in> set vs. 0 \<le> snd e) \<and> (\<forall>e \<in> set bs. 0 < snd e)
           \<and> (list_ex has_embedding cs \<or> vs = [])
           \<and> rs = slice0 topK (sort_by_combinedScore (rerank query cs (combineScores vs bs cs)))"
proof (cases "cs = []")
  case True
  with assms have "rs = []" by (simp add: hybridRetrieval_def)
  then have "rs = slice0 topK (sort_by_combinedScore (rerank query cs (combineScores [] [] cs)))"
    using True by (simp add: combineScores_def rerank_def sort_by_combinedScore_def slice0_def)
  then show ?thesis by force
next
  case False
  define qv where "qv = (case enhanceQuery query (env_chat env query) of
                           Inl _ \<Rightarrow> [JStr query] | Inr vs \<Rightarrow> vs)"
  define vs where "vs = (if list_ex has_embedding cs then
                 (case promise_all (map (env_embed env) qv) of
                    Inl _ \<Rightarrow> [] | Inr es \<Rightarrow> vector_loop es topK cs)
               else [])"
  have unfold: "snd (hybridRetrieval env query topK cs)
      = (case bm25Search (env_regex env) query cs of
           Inl e \<Rightarrow> Inl e
         | Inr bm25Scores \<Rightarrow>
             Inr (slice0 topK (sort_by_combinedScore
                    (rerank query cs (combineScores vs bm25Scores cs)))))"
    unfolding hybridRetrieval_def Let_def vs_def qv_def using False by simp
  from assms have h: "(case bm25Search (env_regex env) query cs of
           Inl e \<Rightarrow> Inl e
         | Inr bm25Scores \<Rightarrow>
             Inr (slice0 topK (sort_by_combinedScore
                    (rerank query cs (combineScores vs bm25Scores cs))))) = Inr rs"
    by (simp only: unfold)
  obtain bs where bm: "bm25Search (env_regex env) query cs = Inr bs"
    and rs: "rs = slice0 topK (sort_by_combinedScore (rerank query cs (combineScores vs bs cs)))"
  proof (cases "bm25Search (env_regex env) query cs")
    case (Inl e)
    with h show ?thesis by simp
  next
    case (Inr bs)
    with h that show ?thesis by simp
  qed
  have "\<forall>e \<in> set vs. 0 \<le> snd e"
  proof (cases "list_ex has_embedding cs")
    case True
    show ?thesis
    proof (cases "promise_all (map (env_embed env) qv)")
      case (Inl e)
      with True show ?thesis by (simp add: vs_def)
    next
      case (Inr es)
      with True have "vs = vector_loop es topK cs" by (simp add: vs_def)
      then show ?thesis using vector_loop_nonneg [of es topK cs] by simp
    qed
  next
    case False
    then show ?thesis by (simp add: vs_def)
  qed
  moreover have "\<forall>e \<in> set bs. 0 < snd e"
    using bm by (rule bm25Search_positive)
  moreover have "list_ex has_embedding cs \<or> vs = []"
    by (simp add: vs_def)
  ultimately show ?thesis using rs by blast
qed

lemma result_entry:
  assumes "snd (hybridRetrieval env query topK cs) = Inr rs" "r \<in> set rs"
  obtains vs bs where "\<forall>e \<in> set vs. 0 \<le> snd e" "\<forall>e \<in> set bs. 0 < snd e"
    "list_ex has_embedding cs \<or> vs = []"
    "vectorScore r = (if vs \<noteq> [] then get_or_0 vs (r_id r) / max_score vs else 0)"
    "bm25Score r = get_or_0 bs (r_id r) / max_score bs"
    "0 < (if vs \<noteq> [] then 0.6 else 0) * vectorScore r
           + (if vs \<noteq> [] then 0.4 else 1) * bm25Score r"
    "combinedScore r
       = min (((if vs \<noteq> [] then 0.6 else 0) * vectorScore r
               + (if vs \<noteq> [] then 0.4 else 1) * bm25Score r)
              * boost_of query (r_metadata r)) 1"
proof -
  from hybridRetrieval_results [OF assms(1)] obtain vs bs where
    vs: "\<forall>e \<in> set vs. 0 \<le> snd e" and bs: "\<forall>e \<in> set bs. 0 < snd e"
    and emb: "list_ex has_embedding cs \<or> vs = []"
    and rs: "rs = slice0 topK (sort_by_combinedScore (rerank query cs (combineScores vs bs cs)))"
    by blast
  from assms(2) rs have "r \<in> set (rerank query cs (combineScores vs bs cs))"
    using slice0_subset by fastforce
  from rerank_entry [OF this] obtain v s c where
    e: "(r_id r, v, s, c) \<in> set (combineScores vs bs cs)"
    and r: "vectorScore r = v" "bm25Score r = s"
       "combinedScore r = min (c * boost_of query (r_metadata r)) 1"
    by blast
  from combineScores_entry [OF e] have
    v: "v = (if vs \<noteq> [] then get_or_0 vs (r_id r) / max_score vs else 0)"
    and s: "s = get_or_0 bs (r_id r) / max_score bs"
    and c: "c = (if vs \<noteq> [] then 0.6 else 0) * v + (if vs \<noteq> [] then 0.4 else 1) * s"
    and pos: "0 < c"
    by blast+
  show thesis
  proof (rule that [of vs bs])
    show "\<forall>e \<in> set vs. 0 \<le> snd e" by (rule vs)
    show "\<forall>e \<in> set bs. 0 < snd e" by (rule bs)
    show "list_ex has_embedding cs \<or> vs = []" by (rule emb)
    show "vectorScore r = (if vs \<noteq> [] then get_or_0 vs (r_id r) / max_score vs else 0)"
      using r(1) v by simp
    show "bm25Score r = get_or_0 bs (r_id r) / max_score bs"
      using r(2) s by simp
    show "0 < (if vs \<noteq> [] then 0.6 else 0) * vectorScore r
           + (if vs \<noteq> [] then 0.4 else 1) * bm25Score r"
      using pos c r(1,2) by simp
    show "combinedScore r
       = min (((if vs \<noteq> [] then 0.6 else 0) * vectorScore r
               + (if vs \<noteq> [] then 0.4 else 1) * bm25Score r)
              * boost_of query (r_metadata r)) 1"
      using r c by simp
  qed
qed

subsection \<open>The order of the candidates\<close>

lemma occurs_before_nth:
  assumes "i < j" "j < length xs"
  shows "occurs_before xs (xs ! i) (xs ! j)"
proof -
  from assms have i: "i < length xs" by simp
  have a: "xs = take i xs @ xs ! i # drop (Suc i) xs"
    using i by (rule id_take_nth_drop)
  have j': "j - Suc i < length (drop (Suc i) xs)" using assms by simp
  have n: "drop (Suc i) xs ! (j - Suc i) = xs ! j" using assms by simp
  have b: "drop (Suc i) xs = take (j - Suc i) (drop (Suc i) xs) @ xs ! j
             # drop (Suc (j - Suc i)) (drop (Suc i) xs)"
    using id_take_nth_drop [OF j'] n by simp
  from a b have "xs = take i xs @ xs ! i # take (j - Suc i) (drop (Suc i) xs) @ xs ! j
             # drop (Suc (j - Suc i)) (drop (Suc i) xs)"
    by simp
  then show ?thesis unfolding occurs_before_def by blast
qed

lemma occurs_before_indices:
  assumes "occurs_before xs x y"
  shows "\<exists>p q. p < q \<and> q < length xs \<and> xs ! p = x \<and> xs ! q = y"
proof -
  from assms obtain us vs ws where xs: "xs = us @ x # vs @ y # ws"
    unfolding occurs_before_def by blast
  have "xs ! length us = x" by (simp add: xs)
  moreover have "xs ! (length us + Suc (length vs)) = y"
    by (simp add: xs nth_append)
  moreover have "length us < length us + Suc (length vs)" by simp
  moreover have "length us + Suc (length vs) < length xs" by (simp add: xs)
  ultimately show ?thesis by blast
qed

lemma occurs_before_take:
  assumes "occurs_before (take n xs) x y"
  shows "occurs_before xs x y"
proof -
  from assms obtain us vs ws where t: "take n xs = us @ x # vs @ y # ws"
    unfolding occurs_before_def by blast
  have "xs = take n xs @ drop n xs" by simp
  with t have "xs = us @ x # vs @ y # (ws @ drop n xs)" by simp
  then show ?thesis unfolding occurs_before_def by blast
qed

lemma occurs_before_filter:
  assumes "occurs_before xs x y" "P x" "P y"
  shows "occurs_before (filter P xs) x y"
proof -
  from assms(1) obtain us vs ws where xs: "xs = us @ x # vs @ y # ws"
    unfolding occurs_before_def by blast
  have "filter P xs = filter P us @ x # filter P vs @ y # filter P ws"
    using assms(2,3) by (simp add: xs)
  then show ?thesis unfolding occurs_before_def by blast
qed

lemma filter_eq_appendD:
  "filter P xs = ys @ zs \<Longrightarrow> \<exists>us vs. xs = us @ vs \<and> filter P us = ys \<and> filter P vs = zs"
proof (induction ys arbitrary: xs)
  case Nil
  then have "xs = [] @ xs \<and> filter P [] = [] \<and> filter P xs = zs" by simp
  then show ?case by blast
next
  case (Cons y ys)
  from Cons.prems have "filter P xs = y # (ys @ zs)" by simp
  then obtain a r where xs: "xs = a @ y # r" and a: "\<forall>u \<in> set a. \<not> P u" and y: "P y"
    and r: "filter P r = ys @ zs"
    by (auto simp: filter_eq_Cons_iff)
  from Cons.IH [OF r] obtain us vs where r': "r = us @ vs" "filter P us = ys" "filter P vs = zs"
    by blast
  have "xs = (a @ y # us) @ vs" by (simp add: xs r')
  moreover have "filter P (a @ y # us) = y # ys" using a y r'(2) by simp
  ultimately show ?case using r'(3) by blast
qed

lemma occurs_before_unfilter:
  assumes "occurs_before (filter P xs) x y"
  shows "occurs_before xs x y"
proof -
  from assms obtain us vs ws where f: "filter P xs = us @ x # vs @ y # ws"
    unfolding occurs_before_def by blast
  from filter_eq_appendD [OF this]
  obtain a1 r1 where 1: "xs = a1 @ r1" "filter P r1 = x # vs @ y # ws"
    by blast
  from 1(2) obtain a2 r2 where 2: "r1 = a2 @ x # r2" "filter P r2 = vs @ y # ws"
    by (auto simp: filter_eq_Cons_iff)
  from filter_eq_appendD [OF 2(2)]
  obtain a3 r3 where 3: "r2 = a3 @ r3" "filter P r3 = y # ws"
    by blast
  from 3(2) obtain a4 r4 where 4: "r3 = a4 @ y # r4"
    by (auto simp: filter_eq_Cons_iff)
  have "xs = (a1 @ a2) @ x # (a3 @ a4) @ y # r4"
    by (simp add: 1 2 3 4)
  then show ?thesis unfolding occurs_before_def by blast
qed

lemma occurs_before_map:
  assumes "occurs_before (map f xs) x y"
  shows "\<exists>a b. occurs_before xs a b \<and> f a = x \<and> f b = y"
proof -
  from assms obtain us vs ws where m: "map f xs = us @ x # vs @ y # ws"
    unfolding occurs_before_def by blast
  then obtain u1 r1 where 1: "xs = u1 @ r1" "map f r1 = x # vs @ y # ws"
    by (auto simp: map_eq_append_conv)
  from 1(2) obtain a r2 where 2: "r1 = a # r2" "f a = x" "map f r2 = vs @ y # ws"
    by (auto simp: map_eq_Cons_conv)
  from 2(3) obtain v1 r3 where 3: "r2 = v1 @ r3" "map f r3 = y # ws"
    by (auto simp: map_eq_append_conv)
  from 3(2) obtain b r4 where 4: "r3 = b # r4" "f b = y"
    by (auto simp: map_eq_Cons_conv)
  have "xs = u1 @ a # v1 @ b # r4" by (simp add: 1 2 3 4)
  then have "occurs_before xs a b" unfolding occurs_before_def by blast
  with 2(2) 4(2) show ?thesis by blast
qed

lemma occurs_before_sort_key:
  assumes "occurs_before (sort_key f xs) x y" "f x = f y"
  shows "occurs_before xs x y"
proof -
  have "occurs_before (filter (\<lambda>z. f z = f x) (sort_key f xs)) x y"
    using assms by (intro occurs_before_filter) simp_all
  then have "occurs_before (filter (\<lambda>z. f z = f x) xs) x y"
    by (simp only: sort_key_stable)
  then show ?thesis by (rule occurs_before_unfilter)
qed

lemma update_fresh: "k \<notin> fst ` set m \<Longrightarrow> AList.update k v m = m @ [(k, v)]"
  by (induction m) auto

lemma fold_update_fresh:
  "distinct (map key xs) \<Longrightarrow> key ` set xs \<inter> fst ` set m = {}
     \<Longrightarrow> fold (\<lambda>c m. if pos c then AList.update (key c) (g c) m else m) xs m
           = m @ map (\<lambda>c. (key c, g c)) (filter pos xs)"
proof (induction xs arbitrary: m)
  case Nil
  then show ?case by simp
next
  case (Cons x xs)
  let ?m = "if pos x then AList.update (key x) (g x) m else m"
  have fresh: "key x \<notin> fst ` set m" using Cons.prems(2) by auto
  have m': "?m = m @ (if pos x then [(key x, g x)] else [])"
    using fresh by (simp add: update_fresh)
  have d: "distinct (map key xs)" using Cons.prems(1) by simp
  have i: "key ` set xs \<inter> fst ` set ?m = {}"
  proof -
    have "key ` set xs \<inter> fst ` set m = {}" using Cons.prems(2) by auto
    moreover have "key x \<notin> key ` set xs" using Cons.prems(1) by simp
    ultimately show ?thesis by (auto simp: m' image_iff)
  qed
  have "fold (\<lambda>c m. if pos c then AList.update (key c) (g c) m else m) (x # xs) m
          = fold (\<lambda>c m. if pos c then AList.update (key c) (g c) m else m) xs ?m"
    by simp
  also have "\<dots> = ?m @ map (\<lambda>c. (key c, g c)) (filter pos xs)"
    using d i by (rule Cons.IH)
  also have "\<dots> = m @ map (\<lambda>c. (key c, g c)) (filter pos (x # xs))"
    by (simp add: m')
  finally show ?case .
qed

lemma find_distinct:
  "distinct (map f xs) \<Longrightarrow> x \<in> set xs \<Longrightarrow> find (\<lambda>y. f y = f x) xs = Some x"
proof (induction xs)
  case Nil
  then show ?case by simp
next
  case (Cons a xs)
  show ?case
  proof (cases "x = a")
    case True
    then show ?thesis by simp
  next
    case False
    with Cons.prems have x: "x \<in> set xs" by simp
    with Cons.prems(1) have "f a \<noteq> f x" by force
    with Cons.IH Cons.prems(1) x show ?thesis by simp
  qed
qed

lemma candidates_distinct:
  assumes "distinct (map chunk_id cs)"
  shows "\<exists>mk pos. rerank query cs (combineScores vs bs cs) = map mk (filter pos cs)
           \<and> (\<forall>c. r_id (mk c) = chunk_id c)"
proof -
  define vOf where "vOf = (\<lambda>c :: chunk. if vs \<noteq> [] then get_or_0 vs (chunk_id c) / max_score vs else 0)"
  define sOf where "sOf = (\<lambda>c :: chunk. get_or_0 bs (chunk_id c) / max_score bs)"
  define cOf where
    "cOf = (\<lambda>c. (if vs \<noteq> [] then 0.6 else 0) * vOf c + (if vs \<noteq> [] then 0.4 else 1.0) * sOf c)"
  define g where "g = (\<lambda>c. (vOf c, sOf c, cOf c))"
  define pos where "pos = (\<lambda>c. 0 < cOf c)"
  define mk where "mk = (\<lambda>c. \<lparr>r_id = chunk_id c, r_content = content c,
      r_documentId = documentId c, r_metadata = metadata c, vectorScore = vOf c,
      bm25Score = sOf c, combinedScore = min (cOf c * boost_of query (metadata c)) 1.0\<rparr>)"
  have "combineScores vs bs cs
          = fold (\<lambda>c m. if pos c then AList.update (chunk_id c) (g c) m else m) cs []"
    by (simp only: combineScores_def Let_def vOf_def sOf_def cOf_def g_def pos_def)
  also have "\<dots> = [] @ map (\<lambda>c. (chunk_id c, g c)) (filter pos cs)"
    using assms by (intro fold_update_fresh) simp_all
  finally have comb: "combineScores vs bs cs = map (\<lambda>c. (chunk_id c, g c)) (filter pos cs)"
    by simp
  define F where "F = (\<lambda>e :: string \<times> real \<times> real \<times> real.
      case e of (chunkId, v, s, combined) \<Rightarrow>
        (case find (\<lambda>c. chunk_id c = chunkId) cs of
           None \<Rightarrow> []
         | Some c \<Rightarrow>
             [\<lparr>r_id = chunk_id c, r_content = content c, r_documentId = documentId c,
               r_metadata = metadata c, vectorScore = v, bm25Score = s,
               combinedScore = min (combined * boost_of query (metadata c)) 1.0\<rparr>]))"
  have one: "F (chunk_id c, g c) = [mk c]" if "c \<in> set cs" for c
    using find_distinct [OF assms that] by (simp add: F_def g_def mk_def)
  have "rerank query cs (combineScores vs bs cs)
          = concat (map F (map (\<lambda>c. (chunk_id c, g c)) (filter pos cs)))"
    by (simp only: rerank_def F_def comb)
  also have "\<dots> = concat (map (\<lambda>c. F (chunk_id c, g c)) (filter pos cs))"
    by (simp only: map_map comp_def)
  also have "map (\<lambda>c. F (chunk_id c, g c)) (filter pos cs) = map (\<lambda>c. [mk c]) (filter pos cs)"
    by (rule map_cong) (simp_all add: one)
  finally have "rerank query cs (combineScores vs bs cs) = map mk (filter pos cs)"
    by (simp add: concat_map_singleton)
  moreover have "\<forall>c. r_id (mk c) = chunk_id c" by (simp add: mk_def)
  ultimately show ?thesis by blast
qed

lemma slice0_nonneg: "0 \<le> e \<Longrightarrow> slice0 e xs = take (nat e) xs"
  by (simp add: slice0_def)

lemma slice0_prefix: "\<exists>n. slice0 e xs = take n xs"
  by (auto simp: slice0_def)

lemma sorted_by_combinedScore:
  "sorted_wrt (\<lambda>x y. combinedScore y \<le> combinedScore x) (sort_by_combinedScore rs)"
proof -
  have "sorted (map (\<lambda>r. - combinedScore r) (sort_key (\<lambda>r. - combinedScore r) rs))"
    by (rule sorted_sort_key)
  then show ?thesis
    by (simp add: sort_by_combinedScore_def sorted_map)
qed

lemma ties_keep_corpus_order:
  assumes d: "distinct (map chunk_id cs)"
    and rs: "rs = take n (sort_by_combinedScore (rerank query cs (combineScores vs bs cs)))"
    and ij: "i < j" "j < length rs" "combinedScore (rs ! i) = combinedScore (rs ! j)"
  shows "\<exists>p q. p < q \<and> q < length cs \<and> chunk_id (cs ! p) = r_id (rs ! i)
           \<and> chunk_id (cs ! q) = r_id (rs ! j)"
proof -
  from candidates_distinct [OF d] obtain mk pos where
    c: "rerank query cs (combineScores vs bs cs) = map mk (filter pos cs)"
    and mk: "\<forall>c. r_id (mk c) = chunk_id c"
    by blast
  define S where "S = sort_key (\<lambda>r. - combinedScore r) (map mk (filter pos cs))"
  have rsS: "rs = take n S"
    by (simp only: rs c sort_by_combinedScore_def S_def)
  have "occurs_before rs (rs ! i) (rs ! j)" using ij(1,2) by (rule occurs_before_nth)
  then have "occurs_before (take n S) (rs ! i) (rs ! j)" by (simp only: rsS [symmetric])
  then have "occurs_before S (rs ! i) (rs ! j)" by (rule occurs_before_take)
  then have "occurs_before (sort_key (\<lambda>r. - combinedScore r) (map mk (filter pos cs)))
               (rs ! i) (rs ! j)"
    by (simp only: S_def)
  moreover have "- combinedScore (rs ! i) = - combinedScore (rs ! j)" using ij(3) by simp
  ultimately have "occurs_before (map mk (filter pos cs)) (rs ! i) (rs ! j)"
    by (rule occurs_before_sort_key)
  from occurs_before_map [OF this] obtain a b where
    ab: "occurs_before (filter pos cs) a b" "mk a = rs ! i" "mk b = rs ! j"
    by blast
  from ab(1) have "occurs_before cs a b" by (rule occurs_before_unfilter)
  from occurs_before_indices [OF this] obtain p q where
    pq: "p < q" "q < length cs" "cs ! p = a" "cs ! q = b"
    by blast
  have "r_id (mk a) = chunk_id a" "r_id (mk b) = chunk_id b" using mk by simp_all
  then have "chunk_id (cs ! p) = r_id (rs ! i)" "chunk_id (cs ! q) = r_id (rs ! j)"
    by (simp_all add: pq(3,4) ab(2,3) [symmetric])
  with pq(1,2) show ?thesis by blast
qed

lemma boost_of_count:
  "boost_of query md
     = 1 + (case md of None \<Rightarrow> 0
            | Some m \<Rightarrow> real (length (filter (includes_str (toLowerCase query)) (meta_keywords m))) / 10)"
proof -
  have f: "fold (\<lambda>keyword boost. if P keyword then boost + 0.1 else boost) ks a
          = a + real (length (filter P ks)) / 10" for P :: "string \<Rightarrow> bool" and ks and a :: real
    by (induction ks arbitrary: a) (simp_all add: field_simps)
  show ?thesis
  proof (cases md)
    case None
    then show ?thesis by (simp add: boost_of_def)
  next
    case (Some m)
    then show ?thesis
      using f [of "includes_str (toLowerCase query)" "meta_keywords m" 1]
      by (simp add: boost_of_def)
  qed
qed

text \<open>
  The results are a prefix of the sorted candidates for every \<open>topK\<close>: they are in
  descending order of \<open>combinedScore\<close>, two results of equal score stand in the order of
  the candidates (whose ids are pairwise different), which is the order of their chunks
  in the corpus when the chunk ids are pairwise different, and there are at most
  \<open>topK\<close> of them when \<open>topK\<close> is not negative.
\<close>

lemma hybridRetrieval_sorts_rerankedResults:
  "snd (hybridRetrieval env query topK allChunks)
     = (case rerankedResults env query topK allChunks of
          Inl e \<Rightarrow> Inl e
        | Inr cands \<Rightarrow> Inr (slice0 topK (sort_by_combinedScore cands)))"
proof (cases "allChunks = []")
  case True
  then show ?thesis
    by (simp add: hybridRetrieval_def rerankedResults_def bm25Search_def combineScores_def
        rerank_def sort_by_combinedScore_def slice0_def)
next
  case False
  then show ?thesis
    unfolding hybridRetrieval_def rerankedResults_def Let_def
    by (simp split: sum.splits)
qed

lemma rerankedResults_form:
  assumes "rerankedResults env query topK cs = Inr cands"
  shows "\<exists>vs bs. cands = rerank query cs (combineScores vs bs cs)"
  using assms unfolding rerankedResults_def Let_def
  by (cases "bm25Search (env_regex env) query cs") auto

lemma combineScores_distinct_keys: "distinct (map fst (combineScores vs bs cs))"
proof -
  have "distinct (map fst m)
          \<Longrightarrow> distinct (map fst (fold (\<lambda>c m. if P c then AList.update (f c) (g c) m else m) xs m))"
    for P :: "chunk \<Rightarrow> bool" and f :: "chunk \<Rightarrow> string" and g :: "chunk \<Rightarrow> real \<times> real \<times> real"
      and xs m
    by (induction xs arbitrary: m) (simp_all add: AList.distinct_update)
  from this [of "[]"] show ?thesis
    unfolding combineScores_def Let_def by simp
qed

lemma rerank_distinct:
  "distinct (map fst comb) \<Longrightarrow> distinct (map r_id (rerank query cs comb))"
proof (induction comb)
  case Nil
  then show ?case by (simp add: rerank_def)
next
  case (Cons e comb)
  obtain k v s c where e: "e = (k, v, s, c)" by (cases e) auto
  have tail: "distinct (map r_id (rerank query cs comb))" using Cons by simp
  have ids: "r_id ` set (rerank query cs comb) \<subseteq> fst ` set comb"
  proof
    fix i assume "i \<in> r_id ` set (rerank query cs comb)"
    then obtain r where r: "r \<in> set (rerank query cs comb)" "i = r_id r" by blast
    from rerank_entry [OF r(1)] r(2) show "i \<in> fst ` set comb" by force
  qed
  have step: "rerank query cs (e # comb)
      = (case find (\<lambda>x. chunk_id x = k) cs of None \<Rightarrow> []
         | Some ch \<Rightarrow> [\<lparr>r_id = chunk_id ch, r_content = content ch, r_documentId = documentId ch,
                          r_metadata = metadata ch, vectorScore = v, bm25Score = s,
                          combinedScore = min (c * boost_of query (metadata ch)) 1.0\<rparr>])
        @ rerank query cs comb"
    by (simp add: rerank_def e)
  show ?case
  proof (cases "find (\<lambda>x. chunk_id x = k) cs")
    case None
    with step tail show ?thesis by simp
  next
    case (Some ch)
    from find_Some_set [OF Some] have "chunk_id ch = k" by simp
    moreover from Cons.prems e have "k \<notin> fst ` set comb" by simp
    ultimately have "chunk_id ch \<notin> r_id ` set (rerank query cs comb)" using ids by blast
    with step Some tail show ?thesis by simp
  qed
qed

lemma rerankedResults_distinct:
  assumes "rerankedResults env query topK cs = Inr cands"
  shows "distinct (map r_id cands)"
proof -
  from rerankedResults_form [OF assms] obtain vs bs where
    "cands = rerank query cs (combineScores vs bs cs)" by blast
  then show ?thesis
    by (simp add: rerank_distinct combineScores_distinct_keys)
qed

lemma ties_keep_candidate_order:
  assumes rs: "rs = take n (sort_by_combinedScore cands)"
    and ij: "i < j" "j < length rs" "combinedScore (rs ! i) = combinedScore (rs ! j)"
  shows "\<exists>p q. p < q \<and> q < length cands \<and> cands ! p = rs ! i \<and> cands ! q = rs ! j"
proof -
  define S where "S = sort_key (\<lambda>r. - combinedScore r) cands"
  have rsS: "rs = take n S"
    by (simp only: rs sort_by_combinedScore_def S_def)
  have "occurs_before rs (rs ! i) (rs ! j)" using ij(1,2) by (rule occurs_before_nth)
  then have "occurs_before (take n S) (rs ! i) (rs ! j)" by (simp only: rsS [symmetric])
  then have "occurs_before S (rs ! i) (rs ! j)" by (rule occurs_before_take)
  then have "occurs_before (sort_key (\<lambda>r. - combinedScore r) cands) (rs ! i) (rs ! j)"
    by (simp only: S_def)
  moreover have "- combinedScore (rs ! i) = - combinedScore (rs ! j)" using ij(3) by simp
  ultimately have "occurs_before cands (rs ! i) (rs ! j)"
    by (rule occurs_before_sort_key)
  then show ?thesis by (rule occurs_before_indices)
qed

lemma hybridRetrieval_sorted_stable:
  assumes "snd (hybridRetrieval env query topK allChunks) = Inr rs"
  shows "(0 \<le> topK \<longrightarrow> int (length rs) \<le> topK)
       \<and> sorted_wrt (\<lambda>x y. combinedScore y \<le> combinedScore x) rs
       \<and> (\<exists>cands. rerankedResults env query topK allChunks = Inr cands
             \<and> distinct (map r_id cands)
             \<and> (\<forall>i j. i < j \<and> j < length rs \<and> combinedScore (rs ! i) = combinedScore (rs ! j) \<longrightarrow>
                   (\<exists>p q. p < q \<and> q < length cands \<and> cands ! p = rs ! i \<and> cands ! q = rs ! j)))
       \<and> (distinct (map chunk_id allChunks) \<longrightarrow>
            (\<forall>i j. i < j \<and> j < length rs \<and> combinedScore (rs ! i) = combinedScore (rs ! j) \<longrightarrow>
               (\<exists>p q. p < q \<and> q < length allChunks \<and> chunk_id (allChunks ! p) = r_id (rs ! i)
                      \<and> chunk_id (allChunks ! q) = r_id (rs ! j))))"
proof -
  from assms obtain cands where
    c: "rerankedResults env query topK allChunks = Inr cands"
    and rs0: "rs = slice0 topK (sort_by_combinedScore cands)"
    unfolding hybridRetrieval_sorts_rerankedResults
    by (cases "rerankedResults env query topK allChunks") auto
  from slice0_prefix [of topK "sort_by_combinedScore cands"] rs0 obtain n where
    rs: "rs = take n (sort_by_combinedScore cands)"
    by auto
  have len: "0 \<le> topK \<longrightarrow> int (length rs) \<le> topK"
    by (auto simp: rs0 slice0_nonneg)
  have srt: "sorted_wrt (\<lambda>x y. combinedScore y \<le> combinedScore x) rs"
    unfolding rs by (rule sorted_wrt_take) (rule sorted_by_combinedScore)
  have ties: "\<forall>i j. i < j \<and> j < length rs \<and> combinedScore (rs ! i) = combinedScore (rs ! j) \<longrightarrow>
                   (\<exists>p q. p < q \<and> q < length cands \<and> cands ! p = rs ! i \<and> cands ! q = rs ! j)"
    using ties_keep_candidate_order [OF rs] by blast
  have corpus: "distinct (map chunk_id allChunks) \<longrightarrow>
            (\<forall>i j. i < j \<and> j < length rs \<and> combinedScore (rs ! i) = combinedScore (rs ! j) \<longrightarrow>
               (\<exists>p q. p < q \<and> q < length allChunks \<and> chunk_id (allChunks ! p) = r_id (rs ! i)
                      \<and> chunk_id (allChunks ! q) = r_id (rs ! j)))"
  proof (intro impI allI)
    fix i j
    assume d: "distinct (map chunk_id allChunks)"
      and ij: "i < j \<and> j < length rs \<and> combinedScore (rs ! i) = combinedScore (rs ! j)"
    from rerankedResults_form [OF c] obtain vs bs where
      "cands = rerank query allChunks (combineScores vs bs allChunks)" by blast
    with rs have
      "rs = take n (sort_by_combinedScore (rerank query allChunks (combineScores vs bs allChunks)))"
      by simp
    from ties_keep_corpus_order [OF d this, of i j] ij
    show "\<exists>p q. p < q \<and> q < length allChunks \<and> chunk_id (allChunks ! p) = r_id (rs ! i)
                      \<and> chunk_id (allChunks ! q) = r_id (rs ! j)"
      by blast
  qed
  from c rerankedResults_distinct [OF c] ties
  have "\<exists>cands. rerankedResults env query topK allChunks = Inr cands
             \<and> distinct (map r_id cands)
             \<and> (\<forall>i j. i < j \<and> j < length rs \<and> combinedScore (rs ! i) = combinedScore (rs ! j) \<longrightarrow>
                   (\<exists>p q. p < q \<and> q < length cands \<and> cands ! p = rs ! i \<and> cands ! q = rs ! j))"
    by blast
  with len srt corpus show ?thesis by (intro conjI)
qed

text \<open>A body that the schema accepts has at most \<open>topK\<close> results.\<close>

lemma api_search_validated:
  assumes "searchQuerySchema body = Some (query, topK, tys)"
    and "api_search env body allChunks = Status_200 rs"
  shows "int (length rs) \<le> topK"
proof -
  from assms(1) have q: "body_query body = Some query" "query \<noteq> []"
    and k: "0 < topK" "(case body_topK body of None \<Rightarrow> 5 | Some k \<Rightarrow> k) = topK"
    by (auto simp: searchQuerySchema_def split: option.splits if_splits)
  from assms(2) q k have "snd (hybridRetrieval env query topK allChunks) = Inr rs"
    by (auto simp: api_search_def Let_def split: sum.splits)
  from hybridRetrieval_sorted_stable [OF this] k(1) show ?thesis by simp
qed

section \<open>The retrieval on the sample corpus\<close>

lemma sample_queryTerms: "queryTerms_of ''tire'' = [''tire'']"
  by (simp add: queryTerms_of_def split_ws_def toLowerCase_def lower_char_def is_ws_def)

lemma sample_avgDL: "avgDL_of (tire_corpus kws) = 24"
  by (simp add: avgDL_of_def tire_corpus_def tire_chunk_def)

lemma sample_lower [simp]:
  "toLowerCase ''tire tire tire tire xxxx'' = ''tire tire tire tire xxxx''"
  "toLowerCase ''tire tire tire xxxx xxxx'' = ''tire tire tire xxxx xxxx''"
  "toLowerCase ''tire tire tire tire tire'' = ''tire tire tire tire tire''"
  by (simp_all add: toLowerCase_def lower_char_def)

lemma sample_df: "df_of (tire_corpus kws) ''tire'' = 3"
  by (simp add: df_of_def tire_corpus_def tire_chunk_def)

lemma sample_idf: "idf_of (tire_corpus kws) [''tire''] = [(''tire'', ln (8 / 7))]"
  by (simp add: idf_of_def sample_df) (simp add: tire_corpus_def)

lemma sample_tf:
  "plain_regexCount ''tire'' ''tire tire tire tire xxxx'' = Some 4"
  "plain_regexCount ''tire'' ''tire tire tire xxxx xxxx'' = Some 3"
  "plain_regexCount ''tire'' ''tire tire tire tire tire'' = Some 5"
  by (simp_all add: plain_regexCount_def plain_pattern_def lower_char_def)

lemma ln_8_7_bound: "1 / 10 < ln (8 / 7 :: real)"
proof -
  have "(1 / 7 :: real) - (1 / 7)\<^sup>2 \<le> ln (1 + 1 / 7)"
    by (rule ln_one_plus_pos_lower_bound) simp_all
  then show ?thesis by (simp add: power2_eq_square)
qed

lemma sample_score_loop:
  assumes "length c = 24" "plain_regexCount ''tire'' c = Some tf"
  shows "score_loop plain_regexCount [(''tire'', L)] c 24 [''tire''] (Some 0)
           = Inr (Some (L * (real tf * (11 / 5) / (real tf + 6 / 5))))"
  using assms
  by (simp add: get_or_0_def term_score_def add_score_def bm25_k1_def bm25_b_def)

lemma sample_scores:
  "score_loop plain_regexCount [(''tire'', L)] ''tire tire tire tire xxxx'' 24 [''tire''] (Some 0)
     = Inr (Some (L * (22 / 13)))"
  "score_loop plain_regexCount [(''tire'', L)] ''tire tire tire xxxx xxxx'' 24 [''tire''] (Some 0)
     = Inr (Some (L * (11 / 7)))"
  "score_loop plain_regexCount [(''tire'', L)] ''tire tire tire tire tire'' 24 [''tire''] (Some 0)
     = Inr (Some (L * (55 / 31)))"
  using sample_score_loop [OF _ sample_tf(1), of L] sample_score_loop [OF _ sample_tf(2), of L]
    sample_score_loop [OF _ sample_tf(3), of L]
  by simp_all

lemma sample_bm25Search:
  "bm25Search plain_regexCount ''tire'' (tire_corpus kws)
     = Inr [(''a'', ln (8 / 7) * (22 / 13)), (''b'', ln (8 / 7) * (11 / 7)),
            (''c'', ln (8 / 7) * (55 / 31))]"
proof -
  have L: "0 < ln (8 / 7 :: real)" using ln_8_7_bound by simp
  show ?thesis
    unfolding bm25Search_def sample_queryTerms sample_idf sample_avgDL
    using L
    by (simp add: tire_corpus_def tire_chunk_def sample_scores is_positive_def
        del: score_loop.simps)
qed

lemma sample_max_score:
  assumes "1 / 10 < (L :: real)"
  shows "max_score [(''a'', L * (22 / 13)), (''b'', L * (11 / 7)), (''c'', L * (55 / 31))]
           = L * (55 / 31)"
  using assms by (simp add: max_score_def max_def)

lemma sample_combineScores:
  assumes "1 / 10 < (L :: real)"
  shows "combineScores [] [(''a'', L * (22 / 13)), (''b'', L * (11 / 7)), (''c'', L * (55 / 31))]
           (tire_corpus kws)
         = [(''a'', 0, 62 / 65, 62 / 65), (''b'', 0, 31 / 35, 31 / 35), (''c'', 0, 1, 1)]"
proof -
  have L: "L \<noteq> 0" "0 < L" using assms by simp_all
  show ?thesis
    unfolding combineScores_def sample_max_score [OF assms]
    using L by (simp add: Let_def get_or_0_def tire_corpus_def tire_chunk_def)
qed

lemma sample_boost:
  "boost_of ''tire'' (Some \<lparr>documentTitle = t, documentType = ty, source = src,
       startPosition = sp, endPosition = ep, meta_keywords = [''tire'', ''ire'']\<rparr>) = 12 / 10"
  "boost_of ''tire'' (Some \<lparr>documentTitle = t, documentType = ty, source = src,
       startPosition = sp, endPosition = ep, meta_keywords = [''tire'']\<rparr>) = 11 / 10"
  "boost_of ''tire'' (Some \<lparr>documentTitle = t, documentType = ty, source = src,
       startPosition = sp, endPosition = ep, meta_keywords = []\<rparr>) = 1"
  by (simp_all add: boost_of_def toLowerCase_def lower_char_def)

lemma sample_rerank:
  "rerank ''tire'' (tire_corpus [''tire''])
     [(''a'', 0, 62 / 65, 62 / 65), (''b'', 0, 31 / 35, 31 / 35), (''c'', 0, 1, 1)]
   = [tire_result ''a'' ''tire tire tire tire xxxx'' [] (62 / 65) (62 / 65),
      tire_result ''b'' ''tire tire tire xxxx xxxx'' [''tire''] (31 / 35) (341 / 350),
      tire_result ''c'' ''tire tire tire tire tire'' [] 1 1]"
  "rerank ''tire'' (tire_corpus [''tire'', ''ire''])
     [(''a'', 0, 62 / 65, 62 / 65), (''b'', 0, 31 / 35, 31 / 35), (''c'', 0, 1, 1)]
   = [tire_result ''a'' ''tire tire tire tire xxxx'' [] (62 / 65) (62 / 65),
      tire_result ''b'' ''tire tire tire xxxx xxxx'' [''tire'', ''ire''] (31 / 35) 1,
      tire_result ''c'' ''tire tire tire tire tire'' [] 1 1]"
  by (simp_all add: rerank_def tire_corpus_def tire_chunk_def tire_result_def sample_boost)

lemma sample_sort:
  "sort_by_combinedScore
     [tire_result ''a'' ''tire tire tire tire xxxx'' [] (62 / 65) (62 / 65),
      tire_result ''b'' ''tire tire tire xxxx xxxx'' [''tire''] (31 / 35) (341 / 350),
      tire_result ''c'' ''tire tire tire tire tire'' [] 1 1]
   = tire_ranked"
  "sort_by_combinedScore
     [tire_result ''a'' ''tire tire tire tire xxxx'' [] (62 / 65) (62 / 65),
      tire_result ''b'' ''tire tire tire xxxx xxxx'' [''tire'', ''ire''] (31 / 35) 1,
      tire_result ''c'' ''tire tire tire tire tire'' [] 1 1]
   = tie_ranked"
  by (simp_all add: sort_by_combinedScore_def tire_result_def tire_ranked_def tie_ranked_def)

lemma sample_no_embeddings:
  "tire_corpus kws \<noteq> []" "\<not> list_ex has_embedding (tire_corpus kws)"
  "distinct (map chunk_id (tire_corpus kws))"
  by (simp_all add: tire_corpus_def tire_chunk_def has_embedding_def)

lemma sample_hybridRetrieval:
  "hybridRetrieval offline ''tire'' k (tire_corpus kws)
   = ([Call_enhanceQuery ''tire'', Call_bm25Search ''tire''],
      Inr (slice0 k (sort_by_combinedScore (rerank ''tire'' (tire_corpus kws)
        [(''a'', 0, 62 / 65, 62 / 65), (''b'', 0, 31 / 35, 31 / 35), (''c'', 0, 1, 1)]))))"
proof -
  define bs where "bs = [(''a'', ln (8 / 7 :: real) * (22 / 13)), (''b'', ln (8 / 7) * (11 / 7)),
                          (''c'', ln (8 / 7) * (55 / 31))]"
  have bm: "bm25Search (env_regex offline) ''tire'' (tire_corpus kws) = Inr bs"
    unfolding bs_def using sample_bm25Search by (simp add: offline_def)
  have fu: "combineScores [] bs (tire_corpus kws)
         = [(''a'', 0, 62 / 65, 62 / 65), (''b'', 0, 31 / 35, 31 / 35), (''c'', 0, 1, 1)]"
    unfolding bs_def by (rule sample_combineScores [OF ln_8_7_bound])
  show ?thesis
    unfolding hybridRetrieval_def
    using sample_no_embeddings(1,2) [of kws]
    by (simp add: Let_def bm fu)
qed

lemma sample_results:
  "snd (hybridRetrieval offline ''tire'' 5 (tire_corpus [''tire''])) = Inr tire_ranked"
  "snd (hybridRetrieval offline ''tire'' 5 (tire_corpus [''tire'', ''ire''])) = Inr tie_ranked"
  "snd (hybridRetrieval offline ''tire'' (- 1) (tire_corpus [''tire''])) = Inr (take 2 tire_ranked)"
  by (simp_all add: sample_hybridRetrieval sample_rerank sample_sort slice0_def
      tire_ranked_def tie_ranked_def)

lemma sample_cosine:
  "cosineSimilarity [1, 0] [0, 1] = 0"
  "cosineSimilarity [1, 0] [3, 4] = 3 / 5"
  "cosineSimilarity [1, 0] [1, 0] = 1"
proof -
  have "sqrt 25 = sqrt (5\<^sup>2)" by simp
  also have "\<dots> = 5" by (simp only: real_sqrt_abs abs_numeral)
  finally have s: "sqrt 25 = 5" .
  show "cosineSimilarity [1, 0] [0, 1] = 0" "cosineSimilarity [1, 0] [1, 0] = 1"
    by (simp_all add: cosineSimilarity_def)
  show "cosineSimilarity [1, 0] [3, 4] = 3 / 5"
    by (simp add: cosineSimilarity_def s)
qed

lemma sample_search:
  "searchChunksByEmbedding [1, 0] 10 vector_corpus
     = [vector_result ''c'' 1 1, vector_result ''b'' (3 / 5) (3 / 5), vector_result ''a'' 0 0]"
  by (simp add: searchChunksByEmbedding_def vector_corpus_def vector_chunk_def has_embedding_def
      sample_cosine sort_by_combinedScore_def slice0_def vector_result_def Let_def
      del: cosine_loop.simps)

lemma sample_vector_loop:
  "vector_loop [[1, 0]] 5 vector_corpus = [(''c'', 1), (''b'', 3 / 5), (''a'', 0)]"
  by (simp add: vector_loop_def sample_search merge_results_def get_or_0_def vector_result_def)

lemma sample_no_terms: "bm25Search rx ''f1'' vector_corpus = Inr []"
proof -
  have "queryTerms_of ''f1'' = []"
    by (simp add: queryTerms_of_def split_ws_def toLowerCase_def lower_char_def is_ws_def)
  then show ?thesis
    by (simp add: bm25Search_def vector_corpus_def is_positive_def)
qed

lemma sample_vector_results:
  "hybridRetrieval embedder ''f1'' 5 vector_corpus
     = ([Call_enhanceQuery ''f1'', Call_generateEmbedding (JStr ''f1''),
         Call_searchChunksByEmbedding [1, 0] 10, Call_bm25Search ''f1''],
        Inr vector_ranked)"
proof -
  have ne: "vector_corpus \<noteq> []" "list_ex has_embedding vector_corpus"
    by (simp_all add: vector_corpus_def vector_chunk_def has_embedding_def)
  have mx: "max_score [(''c'', 1), (''b'', 3 / 5), (''a'', 0)] = 1" "max_score [] = 1 / 1000"
    by (simp_all add: max_score_def)
  have comb: "combineScores [(''c'', 1), (''b'', 3 / 5), (''a'', 0)] [] vector_corpus
                = [(''b'', 3 / 5, 0, 9 / 25), (''c'', 1, 0, 3 / 5)]"
    unfolding combineScores_def mx
    by (simp add: Let_def get_or_0_def vector_corpus_def vector_chunk_def)
  have rr: "rerank ''f1'' vector_corpus [(''b'', 3 / 5, 0, 9 / 25), (''c'', 1, 0, 3 / 5)]
              = [vector_result ''b'' (3 / 5) (9 / 25), vector_result ''c'' 1 (3 / 5)]"
    by (simp add: rerank_def vector_corpus_def vector_chunk_def vector_result_def boost_of_def)
  have so: "sort_by_combinedScore [vector_result ''b'' (3 / 5) (9 / 25), vector_result ''c'' 1 (3 / 5)]
              = vector_ranked"
    by (simp add: sort_by_combinedScore_def vector_result_def vector_ranked_def)
  show ?thesis
    unfolding hybridRetrieval_def
    using ne
    by (simp add: Let_def embedder_def enhanceQuery_def sample_vector_loop sample_no_terms
        comb rr so slice0_def vector_ranked_def)
qed

lemma sample_tie_order:
  "snd (hybridRetrieval offline ''tire'' 5 (tire_corpus [''tire'', ''ire''])) = Inr tie_ranked
   \<and> int (length tie_ranked) \<le> 5
   \<and> combinedScore (tie_ranked ! 0) = combinedScore (tie_ranked ! 1)
   \<and> (\<exists>p q. p < q \<and> q < length (tire_corpus [''tire'', ''ire''])
          \<and> chunk_id (tire_corpus [''tire'', ''ire''] ! p) = r_id (tie_ranked ! 0)
          \<and> chunk_id (tire_corpus [''tire'', ''ire''] ! q) = r_id (tie_ranked ! 1))"
proof -
  have i: "(0 :: nat) < 1 \<and> 1 < length tie_ranked
    \<and> combinedScore (tie_ranked ! 0) = combinedScore (tie_ranked ! 1)"
    by (simp add: tie_ranked_def tire_result_def)
  note t = hybridRetrieval_sorted_stable [OF sample_results(2)]
  from t have len: "int (length tie_ranked) \<le> 5" by simp
  from t have "distinct (map chunk_id (tire_corpus [''tire'', ''ire''])) \<longrightarrow>
      (\<forall>i j. i < j \<and> j < length tie_ranked
        \<and> combinedScore (tie_ranked ! i) = combinedScore (tie_ranked ! j) \<longrightarrow>
          (\<exists>p q. p < q \<and> q < length (tire_corpus [''tire'', ''ire''])
             \<and> chunk_id (tire_corpus [''tire'', ''ire''] ! p) = r_id (tie_ranked ! i)
             \<and> chunk_id (tire_corpus [''tire'', ''ire''] ! q) = r_id (tie_ranked ! j)))"
    by (rule conjunct2 [THEN conjunct2, THEN conjunct2])
  from this sample_no_embeddings(3) [of "[''tire'', ''ire'']"]
  have "\<forall>i j. i < j \<and> j < length tie_ranked
        \<and> combinedScore (tie_ranked ! i) = combinedScore (tie_ranked ! j) \<longrightarrow>
          (\<exists>p q. p < q \<and> q < length (tire_corpus [''tire'', ''ire''])
             \<and> chunk_id (tire_corpus [''tire'', ''ire''] ! p) = r_id (tie_ranked ! i)
             \<and> chunk_id (tire_corpus [''tire'', ''ire''] ! q) = r_id (tie_ranked ! j))"
    by (rule mp)
  then have "(0 :: nat) < 1 \<and> 1 < length tie_ranked
        \<and> combinedScore (tie_ranked ! 0) = combinedScore (tie_ranked ! 1) \<longrightarrow>
          (\<exists>p q. p < q \<and> q < length (tire_corpus [''tire'', ''ire''])
             \<and> chunk_id (tire_corpus [''tire'', ''ire''] ! p) = r_id (tie_ranked ! 0)
             \<and> chunk_id (tire_corpus [''tire'', ''ire''] ! q) = r_id (tie_ranked ! 1))"
    by (elim allE [where x = "0 :: nat"] allE [where x = "1 :: nat"])
  with i have "\<exists>p q. p < q \<and> q < length (tire_corpus [''tire'', ''ire''])
             \<and> chunk_id (tire_corpus [''tire'', ''ire''] ! p) = r_id (tie_ranked ! 0)
             \<and> chunk_id (tire_corpus [''tire'', ''ire''] ! q) = r_id (tie_ranked ! 1)"
    by blast
  with i len sample_results(2) show ?thesis by (intro conjI) simp_all
qed

section \<open>Properties of the retrieval\<close>

text \<open>
  C9. On an empty corpus \<open>hybridRetrieval\<close> returns the empty list, whatever the
  query, \<open>topK\<close> and the collaborators are: it raises nothing and the list of its calls
  is empty (no query expansion, no embedding, no vector search, no BM25 scoring).
\<close>

theorem hybridRetrieval_empty_corpus:
  "hybridRetrieval env query topK [] = ([], Inr [])"
  by (simp add: hybridRetrieval_def)

text \<open>
  C1. Every result \<open>hybridRetrieval\<close> returns has its \<open>combinedScore\<close> in [0, 1]: it is
  \<open>min (combined * boost) 1\<close>, where \<open>combined\<close> is the weighted sum of the two scores of
  the result (weights 0.6 and 0.4, or 0 and 1) and \<open>boost\<close> is the keyword boost of its
  metadata.
\<close>

theorem combinedScore_in_unit_interval:
  assumes "snd (hybridRetrieval env query topK allChunks) = Inr rs" "r \<in> set rs"
  shows "0 \<le> combinedScore r \<and> combinedScore r \<le> 1
       \<and> (\<exists>vectorWeight bm25Weight.
            (vectorWeight = 0.6 \<and> bm25Weight = 0.4 \<or> vectorWeight = 0 \<and> bm25Weight = 1)
          \<and> combinedScore r
              = min ((vectorWeight * vectorScore r + bm25Weight * bm25Score r)
                     * boost_of query (r_metadata r)) 1)"
proof -
  from assms obtain vs :: "(string \<times> real) list" where
    pos: "0 < (if vs \<noteq> [] then 0.6 else 0) * vectorScore r
              + (if vs \<noteq> [] then 0.4 else 1) * bm25Score r"
    and c: "combinedScore r
              = min (((if vs \<noteq> [] then 0.6 else 0) * vectorScore r
                      + (if vs \<noteq> [] then 0.4 else 1) * bm25Score r)
                     * boost_of query (r_metadata r)) 1"
    by (rule result_entry)
  define w where "w = (if vs \<noteq> [] then 0.6 else 0) * vectorScore r
                      + (if vs \<noteq> [] then 0.4 else 1) * bm25Score r"
  have "0 \<le> w * boost_of query (r_metadata r)"
    using pos boost_of_ge_1 [of query "r_metadata r"] by (simp add: w_def)
  then have lo: "0 \<le> combinedScore r" and hi: "combinedScore r \<le> 1"
    using c by (simp_all add: w_def)
  have "\<exists>vectorWeight bm25Weight.
            (vectorWeight = 0.6 \<and> bm25Weight = 0.4 \<or> vectorWeight = 0 \<and> bm25Weight = 1)
          \<and> combinedScore r
              = min ((vectorWeight * vectorScore r + bm25Weight * bm25Score r)
                     * boost_of query (r_metadata r)) 1"
  proof (cases "vs \<noteq> []")
    case True
    with c show ?thesis by (intro exI [of _ "0.6"] exI [of _ "0.4"]) simp
  next
    case False
    with c show ?thesis by (intro exI [of _ 0] exI [of _ 1]) simp
  qed
  with lo hi show ?thesis by blast
qed

theorem combinedScore_in_unit_interval_witness:
  "snd (hybridRetrieval offline ''tire'' 5 (tire_corpus [''tire''])) = Inr tire_ranked
   \<and> tire_ranked ! 1 \<in> set tire_ranked
   \<and> combinedScore (tire_ranked ! 1) = 341 / 350
   \<and> 0 \<le> combinedScore (tire_ranked ! 1) \<and> combinedScore (tire_ranked ! 1) \<le> 1"
proof -
  have m: "tire_ranked ! 1 \<in> set tire_ranked" by (simp add: tire_ranked_def)
  have c: "combinedScore (tire_ranked ! 1) = 341 / 350"
    by (simp add: tire_ranked_def tire_result_def)
  from combinedScore_in_unit_interval [OF sample_results(1) m] sample_results(1) m c
  show ?thesis by simp
qed

text \<open>
  C3. Every result \<open>hybridRetrieval\<close> returns has its \<open>vectorScore\<close> and its
  \<open>bm25Score\<close> in [0, 1].
\<close>

theorem scores_in_unit_interval:
  assumes "snd (hybridRetrieval env query topK allChunks) = Inr rs" "r \<in> set rs"
  shows "0 \<le> vectorScore r \<and> vectorScore r \<le> 1 \<and> 0 \<le> bm25Score r \<and> bm25Score r \<le> 1"
proof -
  from assms obtain vs bs where
    vs: "\<forall>e \<in> set vs. 0 \<le> snd e" and bs: "\<forall>e \<in> set bs. 0 < snd e"
    and v: "vectorScore r = (if vs \<noteq> [] then get_or_0 vs (r_id r) / max_score vs else 0)"
    and s: "bm25Score r = get_or_0 bs (r_id r) / max_score bs"
    by (rule result_entry)
  from bs have bs': "\<forall>e \<in> set bs. 0 \<le> snd e" by force
  from normalized_bounds [OF vs, of "r_id r"] normalized_bounds [OF bs', of "r_id r"] v s
  show ?thesis by simp
qed

theorem scores_in_unit_interval_witness:
  "snd (hybridRetrieval embedder ''f1'' 5 vector_corpus) = Inr vector_ranked
   \<and> vector_ranked ! 1 \<in> set vector_ranked
   \<and> vectorScore (vector_ranked ! 1) = 3 / 5 \<and> bm25Score (vector_ranked ! 1) = 0
   \<and> 0 \<le> vectorScore (vector_ranked ! 1) \<and> vectorScore (vector_ranked ! 1) \<le> 1
   \<and> 0 \<le> bm25Score (vector_ranked ! 1) \<and> bm25Score (vector_ranked ! 1) \<le> 1"
proof -
  have h: "snd (hybridRetrieval embedder ''f1'' 5 vector_corpus) = Inr vector_ranked"
    by (simp add: sample_vector_results)
  have m: "vector_ranked ! 1 \<in> set vector_ranked" by (simp add: vector_ranked_def)
  have c: "vectorScore (vector_ranked ! 1) = 3 / 5" "bm25Score (vector_ranked ! 1) = 0"
    by (simp_all add: vector_ranked_def vector_result_def)
  from scores_in_unit_interval [OF h m] h m c
  show ?thesis by simp
qed

text \<open>
  C4 fails in the code for a negative \<open>topK\<close>. The schema of the search request
  declares \<open>topK\<close> a positive integer and refuses the body; the route does not parse
  the body, and \<open>slice(0, -1)\<close> drops the last candidate only, so that
  \<open>hybridRetrieval\<close> returns two results for \<open>topK = -1\<close> on the sample corpus.
\<close>

theorem api_search_negative_topK:
  "searchQuerySchema negative_topK = None
   \<and> snd (hybridRetrieval offline ''tire'' (- 1) (tire_corpus [''tire''])) = Inr (take 2 tire_ranked)
   \<and> api_search offline negative_topK (tire_corpus [''tire'']) = Status_200 (take 2 tire_ranked)
   \<and> length (take 2 tire_ranked) = 2"
  using sample_results(3)
  by (simp add: searchQuerySchema_def api_search_def negative_topK_def tire_ranked_def)

text \<open>
  C5, as the code has it. When no chunk has a non-empty embedding, every result has
  \<open>vectorScore\<close> 0 and the weights are 0 and 1, so that \<open>combinedScore\<close> is
  \<open>min (bm25Score * boost) 1\<close>; the results are in descending order of that boosted and
  capped score.
\<close>

theorem keyword_fallback_ranking:
  assumes "\<not> list_ex has_embedding allChunks"
    and "snd (hybridRetrieval env query topK allChunks) = Inr rs"
  shows "(\<forall>r \<in> set rs. vectorScore r = 0
            \<and> combinedScore r
                = min ((0 * vectorScore r + 1 * bm25Score r) * boost_of query (r_metadata r)) 1)
       \<and> sorted_wrt (\<lambda>x y. min (bm25Score y * boost_of query (r_metadata y)) 1
                           \<le> min (bm25Score x * boost_of query (r_metadata x)) 1) rs"
proof -
  have each: "vectorScore r = 0
            \<and> combinedScore r
                = min ((0 * vectorScore r + 1 * bm25Score r) * boost_of query (r_metadata r)) 1"
    if "r \<in> set rs" for r
  proof -
    from assms(2) that obtain vs :: "(string \<times> real) list" where
      e: "list_ex has_embedding allChunks \<or> vs = []"
      and v: "vectorScore r = (if vs \<noteq> [] then get_or_0 vs (r_id r) / max_score vs else 0)"
      and c: "combinedScore r
         = min (((if vs \<noteq> [] then 0.6 else 0) * vectorScore r
               + (if vs \<noteq> [] then 0.4 else 1) * bm25Score r)
              * boost_of query (r_metadata r)) 1"
      by (rule result_entry)
    from e assms(1) have "vs = []" by simp
    with v c show ?thesis by simp
  qed
  from hybridRetrieval_results [OF assms(2)] obtain vs bs where
    "rs = slice0 topK (sort_by_combinedScore (rerank query allChunks (combineScores vs bs allChunks)))"
    by blast
  with slice0_prefix obtain n where
    "rs = take n (sort_by_combinedScore (rerank query allChunks (combineScores vs bs allChunks)))"
    by metis
  then have "sorted_wrt (\<lambda>x y. combinedScore y \<le> combinedScore x) rs"
    by (simp only: sorted_wrt_take sorted_by_combinedScore)
  then have "sorted_wrt (\<lambda>x y. min (bm25Score y * boost_of query (r_metadata y)) 1
                           \<le> min (bm25Score x * boost_of query (r_metadata x)) 1) rs"
  proof (rule sorted_wrt_mono_rel [rotated])
    fix x y
    assume "x \<in> set rs" "y \<in> set rs" "combinedScore y \<le> combinedScore x"
    with each [of x] each [of y]
    show "min (bm25Score y * boost_of query (r_metadata y)) 1
            \<le> min (bm25Score x * boost_of query (r_metadata x)) 1"
      by simp
  qed
  with each show ?thesis by blast
qed

theorem keyword_fallback_ranking_witness:
  "\<not> list_ex has_embedding (tire_corpus [''tire''])
   \<and> snd (hybridRetrieval offline ''tire'' 5 (tire_corpus [''tire''])) = Inr tire_ranked
   \<and> tire_ranked ! 1 \<in> set tire_ranked
   \<and> vectorScore (tire_ranked ! 1) = 0
   \<and> combinedScore (tire_ranked ! 1)
       = min ((0 * vectorScore (tire_ranked ! 1) + 1 * bm25Score (tire_ranked ! 1))
              * boost_of ''tire'' (r_metadata (tire_ranked ! 1))) 1"
proof -
  have m: "tire_ranked ! 1 \<in> set tire_ranked" by (simp add: tire_ranked_def)
  from keyword_fallback_ranking [OF sample_no_embeddings(2) sample_results(1)]
  have "\<forall>r \<in> set tire_ranked. vectorScore r = 0
            \<and> combinedScore r
                = min ((0 * vectorScore r + 1 * bm25Score r) * boost_of ''tire'' (r_metadata r)) 1"
    by (rule conjunct1)
  from bspec [OF this m] m sample_no_embeddings(2) [of "[''tire'']"] sample_results(1)
  show ?thesis by (intro conjI) simp_all
qed

text \<open>
  C5 as stated fails: the ranking is not by \<open>bm25Score\<close> alone. On the sample corpus the
  chunk ranked second has a smaller \<open>bm25Score\<close> than the chunk ranked third; its
  metadata keyword lifts it.
\<close>

theorem ranking_not_by_bm25Score_counterexample:
  "tire_corpus [''tire''] \<noteq> []
   \<and> \<not> list_ex has_embedding (tire_corpus [''tire''])
   \<and> snd (hybridRetrieval offline ''tire'' 5 (tire_corpus [''tire''])) = Inr tire_ranked
   \<and> bm25Score (tire_ranked ! 1) < bm25Score (tire_ranked ! 2)
   \<and> combinedScore (tire_ranked ! 2) < combinedScore (tire_ranked ! 1)"
  using sample_no_embeddings(1,2) [of "[''tire'']"] sample_results(1)
  by (simp add: tire_ranked_def tire_result_def)

section \<open>Properties of the chunker\<close>

lemma spans_snoc:
  "spans (cs @ [make_chunk d cur idx start]) = spans cs @ [(start, start + length cur)]"
  by (simp add: spans_def make_chunk_def)

lemma split_sentences_from_budget:
  "sentence_budget (split_sentences_from in_sep after_punct cur s) \<le> length cur + length s + 1"
proof (induction s arbitrary: in_sep after_punct cur)
  case Nil
  then show ?case by (simp add: sentence_budget_def)
next
  case (Cons c cs)
  show ?case
  proof (cases "is_ws c \<and> (in_sep \<or> after_punct)")
    case True
    show ?thesis
    proof (cases in_sep)
      case True
      with \<open>is_ws c \<and> (in_sep \<or> after_punct)\<close> Cons.IH [of True False cur]
      show ?thesis by simp
    next
      case False
      with \<open>is_ws c \<and> (in_sep \<or> after_punct)\<close> Cons.IH [of True False "[]"]
      show ?thesis by (simp add: sentence_budget_def)
    qed
  next
    case False
    with Cons.IH [of False "is_sentence_end c" "c # cur"]
    show ?thesis by auto
  qed
qed

lemma split_sentences_budget: "sentence_budget (split_sentences s) \<le> length s + 1"
  using split_sentences_from_budget [of False False "[]" s] by (simp add: split_sentences_def)

lemma inv_close:
  assumes inv: "chunker_inv sp cur start budget" and cur: "cur \<noteq> []"
  shows "chunker_inv (sp @ [(start, start + length cur)])
           (drop (nat (max 0 (int (length cur) - int CHUNK_OVERLAP))) cur @ sentence)
           (start + nat (max 0 (int (length cur) - int CHUNK_OVERLAP)))
           (budget + (length sentence + 1))"
proof -
  define ov where "ov = nat (max 0 (int (length cur) - int CHUNK_OVERLAP))"
  have "0 < length cur" using cur by simp
  then have ov: "ov < length cur" "ov \<le> length cur"
    unfolding ov_def CHUNK_OVERLAP_def by linarith+
  from inv have succ: "successively linked sp"
    and nonempty: "sp \<noteq> [] \<longrightarrow> fst (hd sp) = 0 \<and> fst (last sp) \<le> start \<and> start \<le> snd (last sp)"
    and empty: "sp = [] \<longrightarrow> start = 0"
    and ends: "\<forall>i < length sp. snd (sp ! i) + i + 1 \<le> budget"
    and cure: "start + length cur + length sp + 1 \<le> budget"
    using cur by (simp_all add: chunker_inv_def)
  let ?sp = "sp @ [(start, start + length cur)]"
  have 1: "successively linked ?sp"
    using succ nonempty by (cases "sp = []") (simp_all add: successively_append_iff linked_def)
  have 2: "fst (hd ?sp) = 0 \<and> fst (last ?sp) \<le> start + ov \<and> start + ov \<le> snd (last ?sp)"
    using nonempty empty ov by (cases sp) simp_all
  have 3: "\<forall>i < length ?sp. snd (?sp ! i) + i + 1 \<le> budget + (length sentence + 1)"
  proof (intro allI impI)
    fix i assume "i < length ?sp"
    then consider "i < length sp" | "i = length sp" by fastforce
    then show "snd (?sp ! i) + i + 1 \<le> budget + (length sentence + 1)"
    proof cases
      case 1
      with ends have "snd (sp ! i) + i + 1 \<le> budget" by blast
      with 1 show ?thesis by (simp add: nth_append)
    next
      case 2
      with cure show ?thesis by (simp add: nth_append)
    qed
  qed
  have 4: "(start + ov) + length (drop ov cur @ sentence) + length ?sp + 1
             \<le> budget + (length sentence + 1)"
    using cure ov by simp
  have 5: "drop ov cur @ sentence \<noteq> []" using ov by simp
  from 1 2 3 4 5 show ?thesis
    unfolding ov_def [symmetric] by (simp add: chunker_inv_def)
qed

lemma inv_append:
  assumes inv: "chunker_inv sp cur start budget"
  shows "chunker_inv sp (cur @ (if cur \<noteq> [] then '' '' else []) @ sentence) start
           (budget + (length sentence + 1))"
proof (cases "cur = []")
  case True
  with inv have "sp = []" "start = 0" by (simp_all add: chunker_inv_def)
  with True show ?thesis by (simp add: chunker_inv_def)
next
  case False
  with inv show ?thesis by (auto simp: chunker_inv_def)
qed

lemma chunk_loop_inv:
  assumes "chunk_loop d ss cs cur idx start = (cs', cur', idx', start')"
    and "chunker_inv (spans cs) cur start budget"
  shows "chunker_inv (spans cs') cur' start' (budget + sentence_budget ss)"
  using assms
proof (induction ss arbitrary: cs cur idx start budget)
  case Nil
  then show ?case by (simp add: sentence_budget_def)
next
  case (Cons s ss)
  show ?case
  proof (cases "length cur + length s > CHUNK_SIZE \<and> length cur > 0")
    case True
    let ?ov = "nat (max 0 (int (length cur) - int CHUNK_OVERLAP))"
    from True Cons.prems(1) have
      l: "chunk_loop d ss (cs @ [make_chunk d cur idx start]) (drop ?ov cur @ s) (idx + 1)
            (start + ?ov) = (cs', cur', idx', start')"
      by (simp add: Let_def)
    from True have "cur \<noteq> []" by auto
    from inv_close [OF Cons.prems(2) this, of s]
    have "chunker_inv (spans (cs @ [make_chunk d cur idx start])) (drop ?ov cur @ s)
            (start + ?ov) (budget + (length s + 1))"
      by (simp only: spans_snoc)
    from Cons.IH [OF l this] show ?thesis
      by (simp add: sentence_budget_def add.assoc)
  next
    case False
    with Cons.prems(1) have
      l: "chunk_loop d ss cs (cur @ (if cur \<noteq> [] then '' '' else []) @ s) idx start
            = (cs', cur', idx', start')"
      by auto
    from Cons.IH [OF l inv_append [OF Cons.prems(2), of s]] show ?thesis
      by (simp add: sentence_budget_def add.assoc)
  qed
qed

lemma chunker_inv_mono:
  "chunker_inv sp cur start budget \<Longrightarrow> budget \<le> budget' \<Longrightarrow> chunker_inv sp cur start budget'"
  unfolding chunker_inv_def by (meson le_trans)

lemma trim_nonempty: "trim s \<noteq> [] \<Longrightarrow> s \<noteq> []"
  by (auto simp: trim_def)

lemma chunkDocument_spans_inv:
  "successively linked (spans (chunkDocument d))
   \<and> (spans (chunkDocument d) \<noteq> [] \<longrightarrow> fst (hd (spans (chunkDocument d))) = 0)
   \<and> (\<forall>i < length (spans (chunkDocument d)).
         snd (spans (chunkDocument d) ! i) + i \<le> length (d_content d))"
proof -
  obtain cs cur idx start where
    l: "chunk_loop d (split_sentences (d_content d)) [] [] 0 0 = (cs, cur, idx, start)"
    by (metis prod_cases4)
  have "chunker_inv (spans []) [] 0 0" by (simp add: chunker_inv_def spans_def)
  from chunk_loop_inv [OF l this]
  have "chunker_inv (spans cs) cur start (sentence_budget (split_sentences (d_content d)))"
    by simp
  then have inv: "chunker_inv (spans cs) cur start (length (d_content d) + 1)"
    using split_sentences_budget by (rule chunker_inv_mono)
  let ?sp = "spans cs" and ?L = "length (d_content d)"
  from inv have succ: "successively linked ?sp"
    and nonempty: "?sp \<noteq> [] \<longrightarrow> fst (hd ?sp) = 0 \<and> fst (last ?sp) \<le> start \<and> start \<le> snd (last ?sp)"
    and empty: "?sp = [] \<longrightarrow> start = 0"
    and ends: "\<forall>i < length ?sp. snd (?sp ! i) + i + 1 \<le> ?L + 1"
    and cure: "cur \<noteq> [] \<longrightarrow> start + length cur + length ?sp + 1 \<le> ?L + 1"
    by (simp_all add: chunker_inv_def)
  show ?thesis
  proof (cases "trim cur \<noteq> []")
    case False
    then have r: "chunkDocument d = cs" by (simp add: chunkDocument_def l)
    have "\<forall>i < length ?sp. snd (?sp ! i) + i \<le> ?L"
    proof (intro allI impI)
      fix i assume "i < length ?sp"
      with ends have "snd (?sp ! i) + i + 1 \<le> ?L + 1" by blast
      then show "snd (?sp ! i) + i \<le> ?L" by simp
    qed
    with succ nonempty show ?thesis by (simp add: r)
  next
    case True
    then have r: "spans (chunkDocument d) = ?sp @ [(start, start + length cur)]"
      by (simp add: chunkDocument_def l spans_snoc)
    from True have cur: "cur \<noteq> []" by (rule trim_nonempty)
    let ?sp' = "?sp @ [(start, start + length cur)]"
    have 1: "successively linked ?sp'"
      using succ nonempty by (cases "?sp = []") (simp_all add: successively_append_iff linked_def)
    have 2: "fst (hd ?sp') = 0"
      using nonempty empty by (cases ?sp) simp_all
    have 3: "\<forall>i < length ?sp'. snd (?sp' ! i) + i \<le> ?L"
    proof (intro allI impI)
      fix i assume "i < length ?sp'"
      then consider "i < length ?sp" | "i = length ?sp" by fastforce
      then show "snd (?sp' ! i) + i \<le> ?L"
      proof cases
        case 1
        with ends have "snd (?sp ! i) + i + 1 \<le> ?L + 1" by blast
        with 1 show ?thesis by (simp add: nth_append)
      next
        case 2
        with cure cur show ?thesis by (simp add: nth_append)
      qed
    qed
    from 1 2 3 show ?thesis by (simp add: r)
  qed
qed

lemma chunk_loop_metadata:
  "chunk_loop d ss cs cur idx start = (cs', cur', idx', start')
     \<Longrightarrow> \<forall>c \<in> set cs. metadata c \<noteq> None \<Longrightarrow> \<forall>c \<in> set cs'. metadata c \<noteq> None"
proof (induction ss arbitrary: cs cur idx start)
  case Nil
  then show ?case by simp
next
  case (Cons s ss)
  show ?case
  proof (cases "length cur + length s > CHUNK_SIZE \<and> length cur > 0")
    case True
    let ?ov = "nat (max 0 (int (length cur) - int CHUNK_OVERLAP))"
    from True Cons.prems(1) have
      l: "chunk_loop d ss (cs @ [make_chunk d cur idx start]) (drop ?ov cur @ s) (idx + 1)
            (start + ?ov) = (cs', cur', idx', start')"
      by (simp add: Let_def)
    have "\<forall>c \<in> set (cs @ [make_chunk d cur idx start]). metadata c \<noteq> None"
      using Cons.prems(2) by (simp add: make_chunk_def)
    from Cons.IH [OF l this] show ?thesis .
  next
    case False
    with Cons.prems(1) have
      l: "chunk_loop d ss cs (cur @ (if cur \<noteq> [] then '' '' else []) @ s) idx start
            = (cs', cur', idx', start')"
      by auto
    from Cons.IH [OF l Cons.prems(2)] show ?thesis .
  qed
qed

lemma spans_length: "\<forall>c \<in> set cs. metadata c \<noteq> None \<Longrightarrow> length (spans cs) = length cs"
  by (induction cs) (auto simp: spans_def)

lemma chunkDocument_spans_length: "length (spans (chunkDocument d)) = length (chunkDocument d)"
proof -
  obtain cs cur idx start where
    l: "chunk_loop d (split_sentences (d_content d)) [] [] 0 0 = (cs, cur, idx, start)"
    by (metis prod_cases4)
  from chunk_loop_metadata [OF l] have "\<forall>c \<in> set cs. metadata c \<noteq> None" by simp
  then have "\<forall>c \<in> set (chunkDocument d). metadata c \<noteq> None"
    by (simp add: chunkDocument_def l make_chunk_def)
  then show ?thesis by (rule spans_length)
qed

lemma chunkDocument_last_span_short:
  assumes "2 \<le> length (chunkDocument d)"
  shows "snd (last (spans (chunkDocument d))) < length (d_content d)"
proof -
  let ?sp = "spans (chunkDocument d)"
  from assms have n: "2 \<le> length ?sp" by (simp add: chunkDocument_spans_length)
  then have "length ?sp - 1 < length ?sp" by simp
  with chunkDocument_spans_inv [of d]
  have "snd (?sp ! (length ?sp - 1)) + (length ?sp - 1) \<le> length (d_content d)" by blast
  moreover have "last ?sp = ?sp ! (length ?sp - 1)"
    using n by (intro last_conv_nth) auto
  ultimately show ?thesis using n by simp
qed

lemma split_no_ws:
  "\<forall>c \<in> set xs. \<not> is_ws c \<Longrightarrow> xs \<noteq> []
     \<Longrightarrow> split_sentences_from in_sep after_punct cur (xs @ rest)
           = split_sentences_from False (is_sentence_end (last xs)) (rev xs @ cur) rest"
proof (induction xs arbitrary: in_sep after_punct cur)
  case Nil
  then show ?case by simp
next
  case (Cons x xs)
  show ?case
  proof (cases "xs = []")
    case True
    with Cons.prems show ?thesis by simp
  next
    case False
    with Cons.prems Cons.IH [of False "is_sentence_end x" "x # cur"] show ?thesis by simp
  qed
qed

lemma trim_no_ws: "\<forall>c \<in> set s. \<not> is_ws c \<Longrightarrow> trim s = s"
proof -
  assume a: "\<forall>c \<in> set s. \<not> is_ws c"
  then have "dropWhile is_ws s = s" by (cases s) simp_all
  moreover from a have "dropWhile is_ws (rev s) = rev s" by (cases "rev s") (simp, force)
  ultimately show ?thesis by (simp add: trim_def)
qed

lemma long_sentence_facts:
  assumes "\<not> is_ws c"
  shows "length (long_sentence c) = 300" "\<forall>x \<in> set (long_sentence c). \<not> is_ws x"
    "long_sentence c \<noteq> []" "is_sentence_end (last (long_sentence c))"
  using assms by (auto simp: long_sentence_def is_ws_def is_sentence_end_def)

lemma two_sentences_spans:
  "spans (chunkDocument (sample_document i two_sentences)) = [(0, 300), (200, 600)]
   \<and> length (d_content (sample_document i two_sentences)) = 601"
proof -
  define d where "d = sample_document i two_sentences"
  define a where "a = long_sentence CHR ''A''"
  define b where "b = long_sentence CHR ''B''"
  have wa: "\<not> is_ws CHR ''A''" and wb: "\<not> is_ws CHR ''B''" by (simp_all add: is_ws_def)
  note fa = long_sentence_facts [OF wa, folded a_def]
    and fb = long_sentence_facts [OF wb, folded b_def]
  have content: "d_content d = a @ '' '' @ b"
    by (simp add: d_def sample_document_def two_sentences_def a_def b_def)
  have "split_sentences (a @ '' '' @ b) = split_sentences_from False True (rev a) ('' '' @ b)"
    unfolding split_sentences_def
    using split_no_ws [OF fa(2,3), of False False "[]" "'' '' @ b"] fa(4) by simp
  also have "\<dots> = a # split_sentences_from True False [] (b @ [])"
    by (simp add: is_ws_def)
  also have "split_sentences_from True False [] (b @ []) = [b]"
    using split_no_ws [OF fb(2,3), of True False "[]" "[]"] by simp
  finally have sp: "split_sentences (d_content d) = [a, b]" by (simp add: content)
  have loop: "chunk_loop d [a, b] [] [] 0 0 = ([make_chunk d a 0 0], drop 200 a @ b, 1, 200)"
    by (simp add: fa(1,3) fb(1) CHUNK_SIZE_def CHUNK_OVERLAP_def Let_def)
  have "\<forall>c \<in> set (drop 200 a @ b). \<not> is_ws c"
    using fa(2) fb(2) by (auto dest: in_set_dropD)
  then have tr: "trim (drop 200 a @ b) = drop 200 a @ b" by (rule trim_no_ws)
  have ne: "drop 200 a @ b \<noteq> []" using fb(3) by simp
  have "chunkDocument d = [make_chunk d a 0 0, make_chunk d (drop 200 a @ b) 1 200]"
    unfolding chunkDocument_def sp loop using ne by (simp add: tr)
  then have "spans (chunkDocument d) = [(0, 300), (200, 600)]"
    by (simp add: spans_def make_chunk_def fa(1) fb(1))
  moreover have "length (d_content d) = 601"
    by (simp add: content fa(1) fb(1))
  ultimately show ?thesis by (simp add: d_def)
qed

text \<open>
  C2 fails on the code. The positions count the characters of the buffer, which is
  rebuilt with one space between two sentences and with nothing between the overlap
  and the sentence that closed a chunk. Two sentences of 300 characters with one space
  between them make a document of 601 characters and two chunks, with the spans from 0
  to 300 and from 200 to 600: the last character is not covered. So it is for the
  document \<open>Hi.  Yo.\<close> of 8 characters, whose only chunk has the span from 0 to 7.
  (The lemmas above: the spans do start at 0 and follow each other without a gap, and
  in every document of two or more chunks the last span ends before the document does.)
\<close>

theorem chunk_spans_miss_document_end:
  "spans (chunkDocument (sample_document ''d1'' two_sentences)) = [(0, 300), (200, 600)]
   \<and> length (d_content (sample_document ''d1'' two_sentences)) = 601
   \<and> spans (chunkDocument (sample_document ''d1'' ''Hi.  Yo.'')) = [(0, 7)]
   \<and> length (d_content (sample_document ''d1'' ''Hi.  Yo.'')) = 8"
proof -
  have "spans (chunkDocument (sample_document ''d1'' ''Hi.  Yo.'')) = [(0, 7)]
        \<and> length (d_content (sample_document ''d1'' ''Hi.  Yo.'')) = 8"
    by code_simp
  with two_sentences_spans [of "''d1''"] show ?thesis by simp
qed

section \<open>Properties of the query expander\<close>

lemma spread_slice2_length: "spread_slice2 v = Inr vs \<Longrightarrow> length vs \<le> 2"
  by (cases v) (auto simp: spread_slice2_def)

lemma enhanceQuery_try_shape:
  "enhanceQuery_try query choices = Inr vs \<Longrightarrow> \<exists>rest. vs = JStr query # rest \<and> length rest \<le> 2"
  by (auto simp: enhanceQuery_try_def split: list.splits sum.splits dest: spread_slice2_length)

lemma enhanceQuery_shape:
  "enhanceQuery query (Inr choices) = Inr vs
     \<Longrightarrow> \<exists>rest. vs = JStr query # rest \<and> length rest \<le> 2"
  by (auto simp: enhanceQuery_def split: sum.splits dest: enhanceQuery_try_shape)

lemma enhanceQuery_total:
  "\<exists>vs. enhanceQuery query (Inr choices) = Inr vs"
  by (simp add: enhanceQuery_def split: sum.splits)

lemma enhanceQuery_fallback:
  "enhanceQuery query (Inr []) = Inr [JStr query]"
  "enhanceQuery query (Inr (Unparseable # cs)) = Inr [JStr query]"
  "enhanceQuery query (Inr (NoContent # cs)) = Inr [JStr query]"
  "enhanceQuery query (Inr (Parsed JNull # cs)) = Inr [JStr query]"
  "enhanceQuery query (Inr (Parsed (JBool t) # cs)) = Inr [JStr query]"
  "enhanceQuery query (Inr (Parsed (JNum n) # cs)) = Inr [JStr query]"
  "enhanceQuery query (Inr (Parsed (JStr s) # cs)) = Inr [JStr query]"
  "enhanceQuery query (Inr (Parsed (JArr xs) # cs)) = Inr [JStr query]"
  "map_of props ''variations'' = None \<Longrightarrow> map_of props ''queries'' = None
     \<Longrightarrow> enhanceQuery query (Inr (Parsed (JObj props) # cs)) = Inr [JStr query]"
  "map_of props ''variations'' = Some (JNum n) \<Longrightarrow> n \<noteq> 0
     \<Longrightarrow> enhanceQuery query (Inr (Parsed (JObj props) # cs)) = Inr [JStr query]"
  "map_of props ''variations'' = Some (JObj ps)
     \<Longrightarrow> enhanceQuery query (Inr (Parsed (JObj props) # cs)) = Inr [JStr query]"
  by (simp_all add: enhanceQuery_def enhanceQuery_try_def JSON_parse_def get_property_def
      or_else_empty_def spread_slice2_def)

text \<open>
  C6 fails on the code. A response object whose \<open>variations\<close> is a string, not a list, is
  not answered by the query alone: \<open>slice\<close> and the spread work on strings, and the first
  two characters come back as two further queries.
\<close>

theorem enhanceQuery_string_variations:
  "enhanceQuery ''pit stop'' (Inr [Parsed (JObj [(''variations'', JStr ''hello'')])])
     = Inr [JStr ''pit stop'', JStr ''h'', JStr ''e'']"
  by (simp add: enhanceQuery_def enhanceQuery_try_def JSON_parse_def get_property_def
      or_else_empty_def spread_slice2_def)

section \<open>Properties of the keyword scorer\<close>

lemma bm25_loop_lookup:
  "bm25_loop rx idf avgDL qts cs m0 = Inr m \<Longrightarrow> distinct (map chunk_id cs) \<Longrightarrow>
     (\<forall>k. k \<notin> chunk_id ` set cs \<longrightarrow> map_of m k = map_of m0 k)
   \<and> (\<forall>c \<in> set cs. \<exists>score.
          score_loop rx idf (toLowerCase (content c)) avgDL qts (Some 0) = Inr score
        \<and> map_of m (chunk_id c) = (if is_positive score then score else map_of m0 (chunk_id c)))"
proof (induction cs arbitrary: m0)
  case Nil
  then show ?case by simp
next
  case (Cons x xs)
  from Cons.prems(1) obtain sx where
    sx: "score_loop rx idf (toLowerCase (content x)) avgDL qts (Some 0) = Inr sx"
    and rest: "bm25_loop rx idf avgDL qts xs
                 (if is_positive sx then AList.update (chunk_id x) (the sx) m0 else m0) = Inr m"
    by (auto split: sum.splits)
  let ?m1 = "if is_positive sx then AList.update (chunk_id x) (the sx) m0 else m0"
  have d: "distinct (map chunk_id xs)" and fresh: "chunk_id x \<notin> chunk_id ` set xs"
    using Cons.prems(2) by simp_all
  note ih = Cons.IH [OF rest d]
  have the_sx: "is_positive sx \<Longrightarrow> Some (the sx) = sx"
    by (cases sx) (simp_all add: is_positive_def)
  have m1: "map_of ?m1 k = (if k = chunk_id x \<and> is_positive sx then sx else map_of m0 k)" for k
    using the_sx by (simp add: AList.update_conv')
  have outside: "\<forall>k. k \<notin> chunk_id ` set (x # xs) \<longrightarrow> map_of m k = map_of m0 k"
  proof (intro allI impI)
    fix k assume k: "k \<notin> chunk_id ` set (x # xs)"
    then have "map_of m k = map_of ?m1 k" using ih by simp
    also have "\<dots> = map_of m0 k" using k m1 [of k] by simp
    finally show "map_of m k = map_of m0 k" .
  qed
  have inside: "\<exists>score. score_loop rx idf (toLowerCase (content c)) avgDL qts (Some 0) = Inr score
        \<and> map_of m (chunk_id c) = (if is_positive score then score else map_of m0 (chunk_id c))"
    if "c \<in> set (x # xs)" for c
  proof (cases "c \<in> set xs")
    case True
    with ih obtain score where
      sc: "score_loop rx idf (toLowerCase (content c)) avgDL qts (Some 0) = Inr score"
      and lk: "map_of m (chunk_id c)
                 = (if is_positive score then score else map_of ?m1 (chunk_id c))"
      by blast
    from True have "chunk_id c \<in> chunk_id ` set xs" by (rule imageI)
    with fresh have "chunk_id c \<noteq> chunk_id x" by metis
    with m1 [of "chunk_id c"] have "map_of ?m1 (chunk_id c) = map_of m0 (chunk_id c)" by simp
    with sc lk show ?thesis by simp
  next
    case False
    with that have cx: "c = x" by simp
    from ih fresh have "map_of m (chunk_id x) = map_of ?m1 (chunk_id x)" by simp
    also have "\<dots> = (if is_positive sx then sx else map_of m0 (chunk_id x))"
      using m1 [of "chunk_id x"] by simp
    finally show ?thesis using sx cx by simp
  qed
  from outside inside show ?case by blast
qed

lemma bm25Search_key_iff_positive:
  assumes "distinct (map chunk_id cs)" "bm25Search rx query cs = Inr m" "c \<in> set cs"
  shows "\<exists>score.
           score_loop rx (idf_of cs (queryTerms_of query)) (toLowerCase (content c)) (avgDL_of cs)
             (queryTerms_of query) (Some 0) = Inr score
         \<and> map_of m (chunk_id c) = (if is_positive score then score else None)"
proof -
  from bm25_loop_lookup [OF assms(2) [unfolded bm25Search_def] assms(1)] assms(3)
  obtain score where
    "score_loop rx (idf_of cs (queryTerms_of query)) (toLowerCase (content c)) (avgDL_of cs)
             (queryTerms_of query) (Some 0) = Inr score"
    "map_of m (chunk_id c) = (if is_positive score then score else map_of [] (chunk_id c))"
    by blast
  then show ?thesis by (intro exI [of _ score]) simp
qed

lemma score_loop_no_match:
  assumes "\<forall>t \<in> set qts. rx t c = Some 0" "\<not> is_positive s0"
    "s0 = None \<or> s0 = Some 0"
  shows "\<exists>s. score_loop rx idf c avgDL qts s0 = Inr s \<and> \<not> is_positive s"
  using assms
proof (induction qts arbitrary: s0)
  case Nil
  then show ?case by simp
next
  case (Cons t ts)
  from Cons.prems(1) have tf: "rx t c = Some 0" by simp
  let ?s1 = "add_score s0 (term_score (get_or_0 idf t) 0 (length c) avgDL)"
  have s1: "?s1 = None \<or> ?s1 = Some 0"
    using Cons.prems(3) by (auto simp: add_score_def term_score_def)
  then have np: "\<not> is_positive ?s1" by (auto simp: is_positive_def)
  from Cons.prems(1) have "\<forall>t \<in> set ts. rx t c = Some 0" by simp
  from Cons.IH [OF this np s1] show ?case by (simp add: tf)
qed

lemma bm25Search_no_match_no_key:
  assumes "distinct (map chunk_id cs)" "bm25Search rx query cs = Inr m" "c \<in> set cs"
    and "\<forall>t \<in> set (queryTerms_of query). rx t (toLowerCase (content c)) = Some 0"
  shows "map_of m (chunk_id c) = None"
proof -
  from bm25Search_key_iff_positive [OF assms(1-3)] obtain score where
    sc: "score_loop rx (idf_of cs (queryTerms_of query)) (toLowerCase (content c)) (avgDL_of cs)
             (queryTerms_of query) (Some 0) = Inr score"
    and lk: "map_of m (chunk_id c) = (if is_positive score then score else None)"
    by blast
  have "\<not> is_positive (Some 0)" by (simp add: is_positive_def)
  with assms(4) have "\<exists>s. score_loop rx (idf_of cs (queryTerms_of query)) (toLowerCase (content c))
         (avgDL_of cs) (queryTerms_of query) (Some 0) = Inr s \<and> \<not> is_positive s"
    by (intro score_loop_no_match) simp_all
  with sc have "\<not> is_positive score" by auto
  with lk show ?thesis by simp
qed

text \<open>
  C8 fails on the code. The term frequency counts the matches of the term read as a
  regular expression, while the document frequency tests for the term as a substring:
  for the query \<open>a.c\<close> the chunk \<open>abc\<close>, which does not contain the term, has one match
  and is a key of the result, with the score \<open>ln 4\<close>.
\<close>

theorem bm25Search_scores_chunk_without_term:
  "queryTerms_of ''a.c'' = [''a.c'']
   \<and> \<not> includes_str (toLowerCase ''abc'') ''a.c''
   \<and> bm25Search plain_regexCount ''a.c'' [sample_chunk ''c1'' ''d1'' ''abc''] = Inr [(''c1'', ln 4)]"
proof -
  have qt: "queryTerms_of ''a.c'' = [''a.c'']"
    by (simp add: queryTerms_of_def split_ws_def toLowerCase_def lower_char_def is_ws_def)
  have lc: "toLowerCase ''abc'' = ''abc''" by (simp add: toLowerCase_def lower_char_def)
  have inc: "\<not> includes_str ''abc'' ''a.c''" by simp
  have tf: "plain_regexCount ''a.c'' ''abc'' = Some 1"
    by (simp add: plain_regexCount_def plain_pattern_def lower_char_def)
  have avg: "avgDL_of [sample_chunk ''c1'' ''d1'' ''abc''] = 3"
    by (simp add: avgDL_of_def sample_chunk_def)
  have idf: "idf_of [sample_chunk ''c1'' ''d1'' ''abc''] [''a.c''] = [(''a.c'', ln 4)]"
    by (simp add: idf_of_def df_of_def sample_chunk_def lc)
  have pos: "0 < ln (4 :: real)" by simp
  have sc: "score_loop plain_regexCount [(''a.c'', ln 4)] ''abc'' 3 [''a.c''] (Some 0)
              = Inr (Some (ln 4))"
    by (simp add: tf get_or_0_def term_score_def add_score_def bm25_k1_def bm25_b_def)
  have "bm25Search plain_regexCount ''a.c'' [sample_chunk ''c1'' ''d1'' ''abc''] = Inr [(''c1'', ln 4)]"
    unfolding bm25Search_def qt idf avg
    using pos by (simp add: sample_chunk_def lc sc is_positive_def del: score_loop.simps)
  with qt inc lc show ?thesis by simp
qed

end
